theory Spec2Isabelle
  imports Main "HOL-Library.Word"
begin

section \<open>Data model (src/main.cpp, lines 12-32 and 64-77)\<close>

text \<open>
  The two direction tables, in the order the source lists them. Coordinates are the
  source's \<open>int\<close>; every addition \<open>i + dir[0]\<close> happens on a coordinate that has
  just passed the bounds check, so it cannot overflow on a grid with fewer than
  \<open>2^31\<close> rows and columns, and unbounded integers model it.
\<close>

definition dir4 :: "(int \<times> int) list" where
  "dir4 = [(0, 1), (1, 0), (0, -1), (-1, 0)]"

definition dir8 :: "(int \<times> int) list" where
  "dir8 = [(0, 1), (1, 0), (0, -1), (-1, 0), (1, 1), (1, -1), (-1, 1), (-1, -1)]"

datatype CellType = EMPTY | BOMB

record Cell =
  type :: CellType
  is_flagged :: bool
  is_revealed :: bool

text \<open>The constructor \<open>Cell(CellType type)\<close>: neither flagged nor revealed.\<close>

definition new_Cell :: "CellType \<Rightarrow> Cell" where
  "new_Cell t = \<lparr>type = t, is_flagged = False, is_revealed = False\<rparr>"

type_synonym Grid = "Cell list list"

datatype GameState = OVER | ACTIVE

text \<open>
  The struct \<open>Game\<close>. The three counters are \<open>uint32_t\<close>. The field
  \<open>bomb_likelihood\<close> is a float that only the random fill reads; the fill is modelled
  by the outcome of each draw (see \<open>fill_grid\<close>), so the field is left out.
\<close>

record Game =
  count_bombs :: "32 word"
  count_flagged :: "32 word"
  count_revealed :: "32 word"
  first_move :: bool
  state :: GameState
  grid :: Grid

datatype PlayerMove = Success | NA | LosingMove | OutBounds

section \<open>Grid queries (lines 34-62)\<close>

text \<open>
  \<open>outside\<close> compares against \<open>grid.size()\<close> and \<open>grid[0].size()\<close>. The
  disjunction short-cuts, so row 0 is read only when \<open>0 \<le> i < grid.size()\<close>.
\<close>

definition outside :: "Grid \<Rightarrow> int \<Rightarrow> int \<Rightarrow> bool" where
  "outside g i j \<longleftrightarrow>
     i < 0 \<or> j < 0 \<or> int (length g) \<le> i \<or> int (length (g ! 0)) \<le> j"

text \<open>The cell \<open>grid[i][j]\<close>, read after a bounds check.\<close>

definition cell_at :: "Grid \<Rightarrow> int \<Rightarrow> int \<Rightarrow> Cell" where
  "cell_at g i j = g ! nat i ! nat j"

text \<open>An assignment to a field of \<open>grid[i][j]\<close>.\<close>

definition upd_cell :: "(Cell \<Rightarrow> Cell) \<Rightarrow> Grid \<Rightarrow> int \<Rightarrow> int \<Rightarrow> Grid" where
  "upd_cell f g i j = g[nat i := (g ! nat i)[nat j := f (g ! nat i ! nat j)]]"

definition count_neighbors :: "Grid \<Rightarrow> int \<Rightarrow> int \<Rightarrow> (Cell \<Rightarrow> bool) \<Rightarrow> 32 word" where
  "count_neighbors g i j predicate =
     (if outside g i j then 0
      else fold (\<lambda>dir result.
                   if \<not> outside g (i + fst dir) (j + snd dir)
                      \<and> predicate (cell_at g (i + fst dir) (j + snd dir))
                   then result + 1 else result)
                dir8 0)"

definition count_bomb_neighbors :: "Grid \<Rightarrow> int \<Rightarrow> int \<Rightarrow> 32 word" where
  "count_bomb_neighbors g i j = count_neighbors g i j (\<lambda>cell. type cell = BOMB)"

definition count_flagged_neighbors :: "Grid \<Rightarrow> int \<Rightarrow> int \<Rightarrow> 32 word" where
  "count_flagged_neighbors g i j = count_neighbors g i j (\<lambda>cell. is_flagged cell)"

section \<open>Construction and restart (lines 79-111)\<close>

text \<open>
  \<open>fill_grid\<close> builds \<open>m\<close> rows of \<open>n\<close> empty cells and walks them in row-major
  order, calling \<open>rand()\<close> once per cell. \<open>hit k\<close> says whether draw number
  \<open>k\<close> (counted from 0) satisfied \<open>(rand() % 100) / 100.0f <= bomb_likelihood\<close>; the
  cell in row \<open>r\<close>, column \<open>c\<close> receives draw \<open>r * n + c\<close>. Each hit turns the cell
  into a bomb and increments \<open>count_bombs\<close>.
\<close>

definition fill_grid :: "nat \<Rightarrow> nat \<Rightarrow> (nat \<Rightarrow> bool) \<Rightarrow> Game \<Rightarrow> Game" where
  "fill_grid m n hit game =
     game\<lparr>grid := map (\<lambda>r. map (\<lambda>c. new_Cell (if hit (r * n + c) then BOMB else EMPTY))
                               [0..<n]) [0..<m],
          count_bombs := count_bombs game + of_nat (length (filter hit [0..<m * n]))\<rparr>"

text \<open>
  The constructor initialises \<open>state\<close> and the three counters and then fills the grid.
  Its initialiser list does not mention \<open>first_move\<close>, so the member holds an
  indeterminate value; \<open>fm0\<close> is that value.
\<close>

definition new_Game :: "nat \<Rightarrow> nat \<Rightarrow> (nat \<Rightarrow> bool) \<Rightarrow> bool \<Rightarrow> Game" where
  "new_Game m n hit fm0 =
     fill_grid m n hit
       \<lparr>count_bombs = 0, count_flagged = 0, count_revealed = 0,
        first_move = fm0, state = ACTIVE, grid = []\<rparr>"

definition restart :: "Game \<Rightarrow> Game" where
  "restart game =
     game\<lparr>first_move := True, state := ACTIVE, count_flagged := 0, count_revealed := 0,
          grid := map (map (\<lambda>cell. cell\<lparr>is_flagged := False, is_revealed := False\<rparr>))
                      (grid game)\<rparr>"

section \<open>Win test and the bombs-left query (lines 114-116 and 318-320)\<close>

text \<open>
  The right-hand side of the comparison is computed in \<open>size_t\<close> (64 bits), and the
  \<open>uint32_t\<close> counters are widened to it.
\<close>

definition is_won :: "Game \<Rightarrow> bool" where
  "is_won game \<longleftrightarrow>
     (ucast (count_revealed game) :: 64 word) =
       of_nat (length (grid game)) * of_nat (length (grid game ! 0))
         - ucast (count_bombs game)"

text \<open>
  The number \<open>print_bombs_left\<close> prints: \<open>std::max(count_bombs - count_flagged, 0u)\<close>,
  all of it in \<open>uint32_t\<close>.
\<close>

definition bombs_left :: "Game \<Rightarrow> 32 word" where
  "bombs_left game = max (count_bombs game - count_flagged game) 0"

section \<open>Flood expansion and reveal (lines 165-213)\<close>

text \<open>
  The \<open>for\<close> loop over a direction table: \<open>f\<close> is called on each neighbour in
  turn, on the game the previous call left. \<open>None\<close> means a call did not return.
\<close>

primrec for_dirs ::
  "(Game \<Rightarrow> int \<Rightarrow> int \<Rightarrow> Game option) \<Rightarrow> (int \<times> int) list \<Rightarrow> int \<Rightarrow> int \<Rightarrow> Game \<Rightarrow> Game option"
where
  "for_dirs f [] i j game = Some game"
| "for_dirs f (dir # dirs) i j game =
     (case f game (i + fst dir) (j + snd dir) of
        None \<Rightarrow> None
      | Some game' \<Rightarrow> for_dirs f dirs i j game')"

text \<open>
  \<open>expand\<close> is recursive with no structural argument, so the model carries fuel: the
  first argument bounds the depth of the recursion, and \<open>None\<close> means the depth was
  not enough.
\<close>

primrec expand_fuel :: "nat \<Rightarrow> Game \<Rightarrow> int \<Rightarrow> int \<Rightarrow> Game option" where
  "expand_fuel 0 game i j = None"
| "expand_fuel (Suc n) game i j =
     (if outside (grid game) i j \<or> type (cell_at (grid game) i j) = BOMB
         \<or> is_revealed (cell_at (grid game) i j) \<or> is_flagged (cell_at (grid game) i j)
      then Some game
      else
        let game1 = game\<lparr>grid := upd_cell (\<lambda>cell. cell\<lparr>is_revealed := True\<rparr>) (grid game) i j,
                         count_revealed := count_revealed game + 1\<rparr>
        in if count_flagged_neighbors (grid game1) i j \<noteq> count_bomb_neighbors (grid game1) i j
           then Some game1
           else for_dirs (expand_fuel n) dir4 i j game1)"

text \<open>
  A call of \<open>expand\<close> from outside: the depth allowed is one more than the number of
  cells, which always suffices (\<open>expand_fuel_enough\<close> below), and more depth never
  changes the result (\<open>expand_fuel_mono\<close>).
\<close>

definition expand :: "Game \<Rightarrow> int \<Rightarrow> int \<Rightarrow> Game option" where
  "expand game i j =
     expand_fuel (Suc (length (grid game) * length (grid game ! 0))) game i j"

fun try_reveal :: "Game \<Rightarrow> int \<times> int \<Rightarrow> (PlayerMove \<times> Game) option" where
  "try_reveal game (i, j) =
     (if outside (grid game) i j then Some (OutBounds, game)
      else if is_flagged (cell_at (grid game) i j) then Some (NA, game)
      else if type (cell_at (grid game) i j) = BOMB then
        Some (LosingMove,
              game\<lparr>grid := upd_cell (\<lambda>cell. cell\<lparr>is_revealed := True\<rparr>) (grid game) i j\<rparr>)
      else if \<not> is_revealed (cell_at (grid game) i j) then
        (case expand game i j of
           None \<Rightarrow> None
         | Some game' \<Rightarrow>
             Some (Success,
                   game'\<lparr>grid := upd_cell (\<lambda>cell. cell\<lparr>is_revealed := True\<rparr>) (grid game') i j\<rparr>))
      else if count_flagged_neighbors (grid game) i j \<noteq> count_bomb_neighbors (grid game) i j
        then Some (Success, game)
      else
        (case for_dirs expand dir8 i j game of
           None \<Rightarrow> None
         | Some game' \<Rightarrow> Some (Success, game')))"

section \<open>Flags (lines 215-228)\<close>

text \<open>
  \<open>count_flagged += (value) ? 1 : -1\<close>: the \<open>int\<close> is converted to \<open>uint32_t\<close>, so
  \<open>-1\<close> is \<open>2^32 - 1\<close> and the sum wraps.
\<close>

fun try_set_flag :: "Game \<Rightarrow> int \<times> int \<Rightarrow> bool \<Rightarrow> PlayerMove \<times> Game" where
  "try_set_flag game (i, j) v =
     (if outside (grid game) i j then (OutBounds, game)
      else if is_revealed (cell_at (grid game) i j) then (NA, game)
      else (Success,
            game\<lparr>count_flagged := count_flagged game + (if v then 1 else - 1),
                 grid := upd_cell (\<lambda>cell. cell\<lparr>is_flagged := v\<rparr>) (grid game) i j\<rparr>))"

section \<open>The commands and the main loop (lines 257-316 and 374-384)\<close>

datatype fault = OutOfRangeWrite | NoReturn

text \<open>
  The commands \<open>flag\<close>, \<open>unflag\<close> and \<open>reveal\<close> take the words after the verb
  as \<open>std::stoi\<close> reads them, here a list of integers, two per cell. Both handlers
  refuse a command with fewer than three words or an even number of words (the verb
  included) and return \<open>false\<close>.

  \<open>reveal_step\<close> is one round of the loop in \<open>reveal\<close>, for the coordinates \<open>i\<close>,
  \<open>j\<close> read from the command. With \<open>first_move\<close> set, the source assigns
  \<open>grid[i][j].type\<close> before any bounds check: outside the grid that is a write past the
  vector, which the model reports as a fault. (The grid is rectangular, so \<open>outside\<close>
  is exactly that case.) A losing move sets the state to \<open>OVER\<close> and ends the loop.
\<close>

definition reveal_step :: "Game \<Rightarrow> int \<Rightarrow> int \<Rightarrow> fault + (PlayerMove \<times> Game)" where
  "reveal_step game i j =
     (if first_move game \<and> outside (grid game) i j then Inl OutOfRangeWrite
      else
        let game1 = (if first_move game
                     then game\<lparr>grid := upd_cell (\<lambda>cell. cell\<lparr>type := EMPTY\<rparr>) (grid game) i j\<rparr>
                     else game);
            game2 = game1\<lparr>first_move := False\<rparr>
        in case try_reveal game2 (i, j) of
             None \<Rightarrow> Inl NoReturn
           | Some (LosingMove, game3) \<Rightarrow> Inr (LosingMove, game3\<lparr>state := OVER\<rparr>)
           | Some (r, game3) \<Rightarrow> Inr (r, game3))"

fun reveal_loop :: "Game \<Rightarrow> int list \<Rightarrow> fault + Game" where
  "reveal_loop game (i # j # rest) =
     (case reveal_step game i j of
        Inl e \<Rightarrow> Inl e
      | Inr (r, game') \<Rightarrow> if r = LosingMove then Inr game' else reveal_loop game' rest)"
| "reveal_loop game rest = Inr game"

definition reveal :: "Game \<Rightarrow> int list \<Rightarrow> fault + (bool \<times> Game)" where
  "reveal game args =
     (if length args < 2 \<or> odd (length args) then Inr (False, game)
      else case reveal_loop game args of
             Inl e \<Rightarrow> Inl e
           | Inr game' \<Rightarrow> Inr (True, game'))"

fun flag_loop :: "Game \<Rightarrow> int list \<Rightarrow> bool \<Rightarrow> Game" where
  "flag_loop game (i # j # rest) v = flag_loop (snd (try_set_flag game (i, j) v)) rest v"
| "flag_loop game rest v = game"

definition flag :: "Game \<Rightarrow> int list \<Rightarrow> bool \<Rightarrow> bool \<times> Game" where
  "flag game args v =
     (if length args < 2 \<or> odd (length args) then (False, game)
      else (True, flag_loop game args v))"

text \<open>The test the main loop makes after every command.\<close>

definition check_won :: "Game \<Rightarrow> Game" where
  "check_won game = (if is_won game then game\<lparr>state := OVER\<rparr> else game)"

text \<open>
  The states the program can be in: a game built on a grid with at least one row and
  one column, followed by any number of single flag, unflag and reveal requests that
  return, restarts, and win tests. A whole \<open>flag\<close> or \<open>reveal\<close> command is a run of
  such requests (\<open>flag_reachable\<close>, \<open>reveal_reachable\<close> below). The command loop
  stops once the state is \<open>OVER\<close>; the relation does not, so it covers every state of
  the program and more.
\<close>

inductive reachable :: "Game \<Rightarrow> bool" where
  fresh: "0 < m \<Longrightarrow> 0 < n \<Longrightarrow> reachable (new_Game m n hit fm0)"
| flagged: "reachable game \<Longrightarrow> try_set_flag game (i, j) v = (r, game') \<Longrightarrow> reachable game'"
| revealed: "reachable game \<Longrightarrow> reveal_step game i j = Inr (r, game') \<Longrightarrow> reachable game'"
| restarted: "reachable game \<Longrightarrow> reachable (restart game)"
| checked: "reachable game \<Longrightarrow> reachable (check_won game)"

section \<open>Auxiliary notions for the proofs\<close>

text \<open>
  A grid is rectangular when every row is as long as row 0; \<open>fill_grid\<close> builds
  such grids and nothing changes the shape afterwards. \<open>count_cells P\<close> is the number
  of cells that satisfy \<open>P\<close>.
\<close>

definition rect :: "Grid \<Rightarrow> bool" where
  "rect g \<longleftrightarrow> (\<forall>r \<in> set g. length r = length (g ! 0))"

definition count_cells :: "(Cell \<Rightarrow> bool) \<Rightarrow> Grid \<Rightarrow> nat" where
  "count_cells P g = length (filter P (concat g))"

text \<open>
  \<open>stops\<close> is the guard at the head of \<open>expand\<close>, and \<open>marked\<close> the two assignments that
  follow it: the cell is revealed and the counter incremented.
\<close>

definition stops :: "Grid \<Rightarrow> int \<Rightarrow> int \<Rightarrow> bool" where
  "stops g i j \<longleftrightarrow>
     outside g i j \<or> type (cell_at g i j) = BOMB
       \<or> is_revealed (cell_at g i j) \<or> is_flagged (cell_at g i j)"

definition marked :: "Game \<Rightarrow> int \<Rightarrow> int \<Rightarrow> Game" where
  "marked game i j =
     game\<lparr>grid := upd_cell (\<lambda>cell. cell\<lparr>is_revealed := True\<rparr>) (grid game) i j,
          count_revealed := count_revealed game + 1\<rparr>"

text \<open>
  \<open>grows game game'\<close> collects what a run of \<open>expand\<close> may change: nothing but revealed
  bits, which only go from false to true and never on a bomb, and \<open>count_revealed\<close>, which
  advances by the number of cells newly revealed. \<open>safe_revealed\<close> cells are the revealed
  cells that are not bombs.
\<close>

definition safe_revealed :: "Cell \<Rightarrow> bool" where
  "safe_revealed cell \<longleftrightarrow> is_revealed cell \<and> type cell = EMPTY"

definition grows :: "Game \<Rightarrow> Game \<Rightarrow> bool" where
  "grows game game' \<longleftrightarrow>
     count_bombs game' = count_bombs game \<and> count_flagged game' = count_flagged game \<and>
     first_move game' = first_move game \<and> state game' = state game \<and>
     map length (grid game') = map length (grid game) \<and>
     (\<forall>a b. \<not> outside (grid game) a b \<longrightarrow>
        type (cell_at (grid game') a b) = type (cell_at (grid game) a b) \<and>
        is_flagged (cell_at (grid game') a b) = is_flagged (cell_at (grid game) a b) \<and>
        (is_revealed (cell_at (grid game) a b) \<longrightarrow> is_revealed (cell_at (grid game') a b)) \<and>
        (type (cell_at (grid game) a b) = BOMB \<longrightarrow>
           is_revealed (cell_at (grid game') a b) = is_revealed (cell_at (grid game) a b))) \<and>
     count_cells is_revealed (grid game) \<le> count_cells is_revealed (grid game') \<and>
     count_revealed game' - count_revealed game =
       of_nat (count_cells is_revealed (grid game')) - of_nat (count_cells is_revealed (grid game)) \<and>
     count_revealed game' - count_revealed game =
       of_nat (count_cells safe_revealed (grid game')) - of_nat (count_cells safe_revealed (grid game))"

text \<open>
  The number of cells not yet revealed bounds the depth \<open>expand\<close> needs, and
  \<open>expand_body\<close> is the body of \<open>expand_fuel\<close> with the recursive call as a parameter.
\<close>

definition hidden :: "Grid \<Rightarrow> nat" where
  "hidden g = count_cells (\<lambda>cell. \<not> is_revealed cell) g"

definition expand_body ::
  "(Game \<Rightarrow> int \<Rightarrow> int \<Rightarrow> Game option) \<Rightarrow> Game \<Rightarrow> int \<Rightarrow> int \<Rightarrow> Game option" where
  "expand_body f game i j =
     (if outside (grid game) i j \<or> type (cell_at (grid game) i j) = BOMB
         \<or> is_revealed (cell_at (grid game) i j) \<or> is_flagged (cell_at (grid game) i j)
      then Some game
      else
        let game1 = game\<lparr>grid := upd_cell (\<lambda>cell. cell\<lparr>is_revealed := True\<rparr>) (grid game) i j,
                         count_revealed := count_revealed game + 1\<rparr>
        in if count_flagged_neighbors (grid game1) i j \<noteq> count_bomb_neighbors (grid game1) i j
           then Some game1
           else for_dirs f dir4 i j game1)"

text \<open>
  A cell is \<open>enterable\<close> when the guard of \<open>expand\<close> can only stop at it because it is
  already revealed, and it \<open>conducts\<close> when its two neighbour counts agree, so that
  \<open>expand\<close> goes on to its orthogonal neighbours. \<open>closed_step game game'\<close> says that every
  conducting cell revealed between \<open>game\<close> and \<open>game'\<close> has all its enterable orthogonal
  neighbours revealed in \<open>game'\<close>.
\<close>

definition enterable :: "Grid \<Rightarrow> int \<Rightarrow> int \<Rightarrow> bool" where
  "enterable g a b \<longleftrightarrow>
     \<not> outside g a b \<and> type (cell_at g a b) = EMPTY \<and> \<not> is_flagged (cell_at g a b)"

definition conducts :: "Grid \<Rightarrow> int \<Rightarrow> int \<Rightarrow> bool" where
  "conducts g a b \<longleftrightarrow> count_flagged_neighbors g a b = count_bomb_neighbors g a b"

definition closed_step :: "Game \<Rightarrow> Game \<Rightarrow> bool" where
  "closed_step game game' \<longleftrightarrow>
     (\<forall>a b. \<not> outside (grid game) a b \<and> is_revealed (cell_at (grid game') a b)
             \<and> \<not> is_revealed (cell_at (grid game) a b) \<and> conducts (grid game) a b
        \<longrightarrow> (\<forall>d \<in> set dir4. enterable (grid game) (a + fst d) (b + snd d)
               \<longrightarrow> is_revealed (cell_at (grid game') (a + fst d) (b + snd d))))"

definition floods :: "Game \<Rightarrow> Game \<Rightarrow> bool" where
  "floods game game' \<longleftrightarrow> grows game game' \<and> closed_step game game'"

text \<open>
  \<open>path4 R p q\<close>: a walk of orthogonal steps from \<open>p\<close> to \<open>q\<close> that stays inside \<open>R\<close>.
  \<open>zero_region\<close> and \<open>untouched\<close> describe a set of cells that are not bombs and have no
  bomb around them, and that no flag and no earlier reveal has touched.
\<close>

inductive path4 :: "(int \<times> int) set \<Rightarrow> int \<times> int \<Rightarrow> int \<times> int \<Rightarrow> bool"
  for R :: "(int \<times> int) set" and p :: "int \<times> int"
where
  start: "p \<in> R \<Longrightarrow> path4 R p p"
| step: "path4 R p q \<Longrightarrow> d \<in> set dir4 \<Longrightarrow> (fst q + fst d, snd q + snd d) \<in> R
           \<Longrightarrow> path4 R p (fst q + fst d, snd q + snd d)"

definition zero_region :: "Grid \<Rightarrow> (int \<times> int) set \<Rightarrow> bool" where
  "zero_region g R \<longleftrightarrow>
     (\<forall>(a, b) \<in> R. \<not> outside g a b \<and> type (cell_at g a b) = EMPTY
                    \<and> count_bomb_neighbors g a b = 0)"

definition untouched :: "Grid \<Rightarrow> (int \<times> int) set \<Rightarrow> bool" where
  "untouched g R \<longleftrightarrow>
     (\<forall>(a, b) \<in> R. \<not> is_flagged (cell_at g a b) \<and> \<not> is_revealed (cell_at g a b)
                    \<and> count_flagged_neighbors g a b = 0)"

text \<open>
  The invariant of the reachable states: the grid is rectangular, \<open>count_revealed\<close>
  counts the revealed cells that are not bombs, and while \<open>first_move\<close> is set nothing
  is revealed.
\<close>

definition consistent :: "Game \<Rightarrow> bool" where
  "consistent game \<longleftrightarrow>
     rect (grid game)
     \<and> count_revealed game = of_nat (count_cells safe_revealed (grid game))
     \<and> (first_move game \<longrightarrow> count_cells is_revealed (grid game) = 0)"

section \<open>Lemmas on grids\<close>

lemma rect_row: "rect g \<Longrightarrow> i < length g \<Longrightarrow> length (g ! i) = length (g ! 0)"
  by (simp add: rect_def)

lemma inside_bounds:
  "\<not> outside g i j \<Longrightarrow> 0 \<le> i \<and> 0 \<le> j \<and> nat i < length g \<and> nat j < length (g ! 0)"
  by (auto simp: outside_def)

lemma inside_row: "rect g \<Longrightarrow> \<not> outside g i j \<Longrightarrow> nat j < length (g ! nat i)"
  using inside_bounds [of g i j] by (simp add: rect_row)

lemma map_length_upd_cell: "map length (upd_cell f g i j) = map length g"
proof (cases "nat i < length g")
  case True
  then show ?thesis by (simp add: upd_cell_def map_update list_update_same_conv)
next
  case False
  then have "length g \<le> nat i" by simp
  then show ?thesis by (simp only: upd_cell_def list_update_beyond)
qed

lemma outside_cong: "map length g' = map length g \<Longrightarrow> outside g' i j = outside g i j"
proof -
  assume h: "map length g' = map length g"
  then have l: "length g' = length g" by (rule map_eq_imp_length_eq)
  show ?thesis
  proof (cases "g = []")
    case True
    with l show ?thesis by (auto simp: outside_def)
  next
    case False
    with l have "0 < length g" "0 < length g'" by auto
    with h have "length (g' ! 0) = length (g ! 0)"
      by (metis nth_map)
    with l show ?thesis by (simp add: outside_def)
  qed
qed

lemma rect_cong: "map length g' = map length g \<Longrightarrow> rect g \<Longrightarrow> rect g'"
proof -
  assume h: "map length g' = map length g" and r: "rect g"
  have l: "length g' = length g" using h by (rule map_eq_imp_length_eq)
  have n: "\<And>k. k < length g \<Longrightarrow> length (g' ! k) = length (g ! k)"
    using h l by (metis nth_map)
  show "rect g'"
    unfolding rect_def
  proof
    fix r' assume "r' \<in> set g'"
    then obtain k where k: "k < length g'" "r' = g' ! k" by (auto simp: in_set_conv_nth)
    then have "length r' = length (g ! k)" using n l by simp
    also have "\<dots> = length (g ! 0)" using r k l by (simp add: rect_row)
    also have "\<dots> = length (g' ! 0)" using n [of 0] k l by (cases "length g") auto
    finally show "length r' = length (g' ! 0)" .
  qed
qed

lemma outside_upd_cell [simp]: "outside (upd_cell f g i j) a b = outside g a b"
  by (rule outside_cong) (rule map_length_upd_cell)

lemma rect_upd_cell: "rect g \<Longrightarrow> rect (upd_cell f g i j)"
  by (rule rect_cong [OF map_length_upd_cell])

lemma cell_at_upd_cell:
  assumes "rect g" "\<not> outside g i j" "\<not> outside g a b"
  shows "cell_at (upd_cell f g i j) a b =
           (if a = i \<and> b = j then f (cell_at g i j) else cell_at g a b)"
proof -
  from assms have i: "0 \<le> i" "0 \<le> j" "nat i < length g" "nat j < length (g ! nat i)"
    using inside_bounds [of g i j] inside_row [of g i j] by auto
  from assms have a: "0 \<le> a" "0 \<le> b" "nat a < length g" "nat b < length (g ! nat a)"
    using inside_bounds [of g a b] inside_row [of g a b] by auto
  show ?thesis
    using i a by (auto simp: cell_at_def upd_cell_def nth_list_update)
qed

lemma filter_update_count:
  "j < length xs \<Longrightarrow>
     length (filter P (xs[j := c])) + (if P (xs ! j) then 1 else 0)
       = length (filter P xs) + (if P c then 1 else 0)"
proof (induction xs arbitrary: j)
  case Nil
  then show ?case by simp
next
  case (Cons x xs)
  then show ?case by (cases j) auto
qed

lemma count_cells_update:
  "i < length g \<Longrightarrow> j < length (g ! i) \<Longrightarrow>
     count_cells P (g[i := (g ! i)[j := c]]) + (if P (g ! i ! j) then 1 else 0)
       = count_cells P g + (if P c then 1 else 0)"
proof (induction g arbitrary: i)
  case Nil
  then show ?case by simp
next
  case (Cons r g)
  show ?case
  proof (cases i)
    case 0
    with Cons.prems filter_update_count [of j r P c] show ?thesis
      by (simp add: count_cells_def)
  next
    case (Suc k)
    with Cons.prems Cons.IH [of k] show ?thesis
      by (simp add: count_cells_def)
  qed
qed

lemma count_cells_upd_cell:
  assumes "rect g" "\<not> outside g i j"
  shows "count_cells P (upd_cell f g i j) + (if P (cell_at g i j) then 1 else 0)
           = count_cells P g + (if P (f (cell_at g i j)) then 1 else 0)"
  using assms inside_bounds [of g i j] inside_row [of g i j]
    count_cells_update [of "nat i" g "nat j" P "f (cell_at g i j)"]
  by (simp add: upd_cell_def cell_at_def)

lemma count_cells_le: "count_cells P g \<le> length (concat g)"
  by (simp add: count_cells_def)

lemma length_concat_rect: "rect g \<Longrightarrow> length (concat g) = length g * length (g ! 0)"
proof -
  assume r: "rect g"
  have "\<And>n. \<forall>r \<in> set g. length r = n \<Longrightarrow> length (concat g) = length g * n"
    by (induction g) auto
  with r show ?thesis by (simp add: rect_def)
qed

lemma count_neighbors_cong:
  assumes "map length g' = map length g"
    and "\<And>a b. \<not> outside g a b \<Longrightarrow> P (cell_at g' a b) = P (cell_at g a b)"
  shows "count_neighbors g' i j P = count_neighbors g i j P"
proof -
  have o: "\<And>a b. outside g' a b = outside g a b"
    by (rule outside_cong [OF assms(1)])
  have "(\<lambda>dir result. if \<not> outside g' (i + fst dir) (j + snd dir)
                      \<and> P (cell_at g' (i + fst dir) (j + snd dir))
                   then result + 1 else result)
        = (\<lambda>dir (result :: 32 word). if \<not> outside g (i + fst dir) (j + snd dir)
                      \<and> P (cell_at g (i + fst dir) (j + snd dir))
                   then result + 1 else result)"
    using assms(2) by (auto simp: o fun_eq_iff)
  then show ?thesis
    by (simp only: count_neighbors_def o)
qed

section \<open>What an expansion may change\<close>

lemma grows_refl: "grows game game"
  by (simp add: grows_def)

lemma grows_outside: "grows game game' \<Longrightarrow> outside (grid game') a b = outside (grid game) a b"
  by (rule outside_cong) (simp add: grows_def)

lemma grows_rect: "grows game game' \<Longrightarrow> rect (grid game) \<Longrightarrow> rect (grid game')"
  by (rule rect_cong [of "grid game'" "grid game"]) (simp_all add: grows_def)

lemma word_diff_chain: "(c'' :: 32 word) - c' = x'' - x' \<Longrightarrow> c' - c = x' - x \<Longrightarrow> c'' - c = x'' - x"
proof -
  assume a: "c'' - c' = x'' - x'" and b: "c' - c = x' - x"
  have "c'' - c = (c'' - c') + (c' - c)" by simp
  also have "\<dots> = (x'' - x') + (x' - x)" by (simp only: a b)
  also have "\<dots> = x'' - x" by simp
  finally show ?thesis .
qed

lemma grows_trans:
  assumes ab: "grows a b" and bc: "grows b c"
  shows "grows a c"
proof -
  have o: "\<And>i j. outside (grid b) i j = outside (grid a) i j"
    using ab by (rule grows_outside)
  have cells: "\<forall>i j. \<not> outside (grid a) i j \<longrightarrow>
        type (cell_at (grid c) i j) = type (cell_at (grid a) i j) \<and>
        is_flagged (cell_at (grid c) i j) = is_flagged (cell_at (grid a) i j) \<and>
        (is_revealed (cell_at (grid a) i j) \<longrightarrow> is_revealed (cell_at (grid c) i j)) \<and>
        (type (cell_at (grid a) i j) = BOMB \<longrightarrow>
           is_revealed (cell_at (grid c) i j) = is_revealed (cell_at (grid a) i j))"
  proof (intro allI impI)
    fix i j assume "\<not> outside (grid a) i j"
    then have "\<not> outside (grid b) i j" by (simp add: o)
    with \<open>\<not> outside (grid a) i j\<close> ab bc show
       "type (cell_at (grid c) i j) = type (cell_at (grid a) i j) \<and>
        is_flagged (cell_at (grid c) i j) = is_flagged (cell_at (grid a) i j) \<and>
        (is_revealed (cell_at (grid a) i j) \<longrightarrow> is_revealed (cell_at (grid c) i j)) \<and>
        (type (cell_at (grid a) i j) = BOMB \<longrightarrow>
           is_revealed (cell_at (grid c) i j) = is_revealed (cell_at (grid a) i j))"
      unfolding grows_def by metis
  qed
  have fields: "count_bombs c = count_bombs a \<and> count_flagged c = count_flagged a \<and>
     first_move c = first_move a \<and> state c = state a \<and>
     map length (grid c) = map length (grid a) \<and>
     count_cells is_revealed (grid a) \<le> count_cells is_revealed (grid c)"
    using ab bc unfolding grows_def by auto
  have d1: "count_revealed c - count_revealed a =
       of_nat (count_cells is_revealed (grid c)) - of_nat (count_cells is_revealed (grid a))"
    using ab bc unfolding grows_def by (blast intro: word_diff_chain)
  have d2: "count_revealed c - count_revealed a =
       of_nat (count_cells safe_revealed (grid c)) - of_nat (count_cells safe_revealed (grid a))"
    using ab bc unfolding grows_def by (blast intro: word_diff_chain)
  show ?thesis
    unfolding grows_def using fields cells d1 d2 by simp
qed

section \<open>The first step of an expansion\<close>

lemma marked_cell:
  assumes "rect (grid game)" "\<not> outside (grid game) i j" "\<not> outside (grid game) a b"
  shows "cell_at (grid (marked game i j)) a b =
           (if a = i \<and> b = j then (cell_at (grid game) i j)\<lparr>is_revealed := True\<rparr>
            else cell_at (grid game) a b)"
  using assms by (simp add: marked_def cell_at_upd_cell)

lemma grows_marked:
  assumes r: "rect (grid game)" and s: "\<not> stops (grid game) i j"
  shows "grows game (marked game i j)"
proof -
  from s have o: "\<not> outside (grid game) i j"
    and c: "type (cell_at (grid game) i j) = EMPTY" "\<not> is_revealed (cell_at (grid game) i j)"
    by (auto simp: stops_def intro: CellType.exhaust)
  have n1: "count_cells is_revealed (grid (marked game i j)) = Suc (count_cells is_revealed (grid game))"
    using count_cells_upd_cell [OF r o, of is_revealed "\<lambda>cell. cell\<lparr>is_revealed := True\<rparr>"] c
    by (simp add: marked_def)
  have n2: "count_cells safe_revealed (grid (marked game i j)) = Suc (count_cells safe_revealed (grid game))"
    using count_cells_upd_cell [OF r o, of safe_revealed "\<lambda>cell. cell\<lparr>is_revealed := True\<rparr>"] c
    by (simp add: marked_def safe_revealed_def)
  have cells: "\<forall>a b. \<not> outside (grid game) a b \<longrightarrow>
        type (cell_at (grid (marked game i j)) a b) = type (cell_at (grid game) a b) \<and>
        is_flagged (cell_at (grid (marked game i j)) a b) = is_flagged (cell_at (grid game) a b) \<and>
        (is_revealed (cell_at (grid game) a b) \<longrightarrow> is_revealed (cell_at (grid (marked game i j)) a b)) \<and>
        (type (cell_at (grid game) a b) = BOMB \<longrightarrow>
           is_revealed (cell_at (grid (marked game i j)) a b) = is_revealed (cell_at (grid game) a b))"
    using c by (auto simp: marked_cell [OF r o])
  have rest: "count_bombs (marked game i j) = count_bombs game \<and>
     count_flagged (marked game i j) = count_flagged game \<and>
     first_move (marked game i j) = first_move game \<and> state (marked game i j) = state game \<and>
     map length (grid (marked game i j)) = map length (grid game) \<and>
     count_revealed (marked game i j) - count_revealed game = 1"
    by (simp add: marked_def map_length_upd_cell)
  show ?thesis
    unfolding grows_def using cells rest by (simp add: n1 n2)
qed

lemma counts_marked:
  assumes r: "rect (grid game)" and o: "\<not> outside (grid game) i j"
  shows "count_flagged_neighbors (grid (marked game i j)) a b = count_flagged_neighbors (grid game) a b"
    and "count_bomb_neighbors (grid (marked game i j)) a b = count_bomb_neighbors (grid game) a b"
  unfolding count_flagged_neighbors_def count_bomb_neighbors_def
  by (rule count_neighbors_cong; simp add: marked_def map_length_upd_cell cell_at_upd_cell [OF r o])+

lemma expand_fuel_Suc:
  assumes r: "rect (grid game)"
  shows "expand_fuel (Suc n) game i j =
     (if stops (grid game) i j then Some game
      else if count_flagged_neighbors (grid game) i j \<noteq> count_bomb_neighbors (grid game) i j
        then Some (marked game i j)
      else for_dirs (expand_fuel n) dir4 i j (marked game i j))"
proof (cases "stops (grid game) i j")
  case True
  then show ?thesis by (simp add: stops_def)
next
  case False
  then have o: "\<not> outside (grid game) i j" by (simp add: stops_def)
  have "expand_fuel (Suc n) game i j =
     (if count_flagged_neighbors (grid (marked game i j)) i j
           \<noteq> count_bomb_neighbors (grid (marked game i j)) i j
      then Some (marked game i j)
      else for_dirs (expand_fuel n) dir4 i j (marked game i j))"
    using False by (simp add: stops_def marked_def Let_def)
  then show ?thesis
    using False by (simp add: counts_marked [OF r o])
qed

lemma expand_fuel_body: "expand_fuel (Suc n) game i j = expand_body (expand_fuel n) game i j"
  by (simp only: expand_fuel.simps expand_body_def)

section \<open>Loops over a direction table\<close>

lemma for_dirs_rel:
  assumes step: "\<And>g a b g'. Q g \<Longrightarrow> f g a b = Some g' \<Longrightarrow> R g g' \<and> Q g'"
    and refl: "\<And>g. R g g"
    and trans: "\<And>a b c. R a b \<Longrightarrow> R b c \<Longrightarrow> R a c"
  shows "Q g \<Longrightarrow> for_dirs f ds i j g = Some g' \<Longrightarrow> R g g' \<and> Q g'"
proof (induction ds arbitrary: g)
  case Nil
  then show ?case by (simp add: refl)
next
  case (Cons d ds)
  from Cons.prems(2) obtain g2 where
    g2: "f g (i + fst d) (j + snd d) = Some g2" and rest: "for_dirs f ds i j g2 = Some g'"
    by (auto split: option.splits)
  from step [OF Cons.prems(1) g2] have "R g g2" "Q g2" by simp_all
  moreover from Cons.IH [OF \<open>Q g2\<close> rest] have "R g2 g'" "Q g'" by simp_all
  ultimately show ?case by (blast intro: trans)
qed

lemma for_dirs_mono:
  assumes "\<And>g a b g'. f g a b = Some g' \<Longrightarrow> f' g a b = Some g'"
  shows "for_dirs f ds i j g = Some g' \<Longrightarrow> for_dirs f' ds i j g = Some g'"
proof (induction ds arbitrary: g)
  case Nil
  then show ?case by simp
next
  case (Cons d ds)
  from Cons.prems obtain g2 where
    g2: "f g (i + fst d) (j + snd d) = Some g2" and rest: "for_dirs f ds i j g2 = Some g'"
    by (auto split: option.splits)
  from assms [OF g2] Cons.IH [OF rest] show ?case by simp
qed

lemma for_dirs_total:
  assumes "\<And>g a b. Q g \<Longrightarrow> \<exists>g'. f g a b = Some g' \<and> Q g'"
  shows "Q g \<Longrightarrow> \<exists>g'. for_dirs f ds i j g = Some g' \<and> Q g'"
proof (induction ds arbitrary: g)
  case Nil
  then show ?case by simp
next
  case (Cons d ds)
  from assms [OF Cons.prems] obtain g2 where
    g2: "f g (i + fst d) (j + snd d) = Some g2" and q: "Q g2" by blast
  from Cons.IH [OF q] g2 show ?case by simp
qed

lemma for_dirs_cong_inv:
  assumes "\<And>g a b. Q g \<Longrightarrow> f g a b = f' g a b \<and> (\<forall>g'. f g a b = Some g' \<longrightarrow> Q g')"
  shows "Q g \<Longrightarrow> for_dirs f ds i j g = for_dirs f' ds i j g"
proof (induction ds arbitrary: g)
  case Nil
  then show ?case by simp
next
  case (Cons d ds)
  from assms [OF Cons.prems, of "i + fst d" "j + snd d"]
  have e: "f g (i + fst d) (j + snd d) = f' g (i + fst d) (j + snd d)"
    and q: "\<And>g'. f g (i + fst d) (j + snd d) = Some g' \<Longrightarrow> Q g'" by simp_all
  show ?case
  proof (cases "f g (i + fst d) (j + snd d)")
    case None
    with e show ?thesis by simp
  next
    case (Some g2)
    with e have e': "f' g (i + fst d) (j + snd d) = Some g2" by simp
    from Cons.IH [OF q [OF Some]] show ?thesis by (simp add: Some e')
  qed
qed

section \<open>Expansion returns, and more depth changes nothing\<close>

lemma expand_fuel_grows:
  "rect (grid game) \<Longrightarrow> expand_fuel n game i j = Some game' \<Longrightarrow> grows game game'"
proof (induction n arbitrary: game i j game')
  case 0
  then show ?case by simp
next
  case (Suc n)
  have step: "\<And>g a b g'. rect (grid g) \<Longrightarrow> expand_fuel n g a b = Some g' \<Longrightarrow>
      grows g g' \<and> rect (grid g')"
    using Suc.IH grows_rect by blast
  show ?case
  proof (cases "stops (grid game) i j")
    case True
    with Suc.prems show ?thesis by (simp add: expand_fuel_Suc grows_refl del: expand_fuel.simps)
  next
    case False
    note m = grows_marked [OF Suc.prems(1) False]
    show ?thesis
    proof (cases "count_flagged_neighbors (grid game) i j \<noteq> count_bomb_neighbors (grid game) i j")
      case True
      with False Suc.prems m show ?thesis by (simp add: expand_fuel_Suc del: expand_fuel.simps)
    next
      case eq: False
      with False Suc.prems have "for_dirs (expand_fuel n) dir4 i j (marked game i j) = Some game'"
        by (simp add: expand_fuel_Suc del: expand_fuel.simps)
      from for_dirs_rel [where Q = "\<lambda>g. rect (grid g)" and R = grows and f = "expand_fuel n", OF step grows_refl grows_trans
          grows_rect [OF m Suc.prems(1)] this]
      have "grows (marked game i j) game'" by simp
      with m show ?thesis by (rule grows_trans)
    qed
  qed
qed

lemma count_cells_compl:
  "count_cells P g + count_cells (\<lambda>cell. \<not> P cell) g = length (concat g)"
  by (simp add: count_cells_def sum_length_filter_compl)

lemma grows_hidden: "grows game game' \<Longrightarrow> hidden (grid game') \<le> hidden (grid game)"
proof -
  assume g: "grows game game'"
  then have "map length (grid game') = map length (grid game)" by (simp add: grows_def)
  then have "length (concat (grid game')) = length (concat (grid game))"
    by (simp add: length_concat)
  moreover from g have "count_cells is_revealed (grid game) \<le> count_cells is_revealed (grid game')"
    by (simp add: grows_def)
  ultimately show ?thesis
    using count_cells_compl [of is_revealed "grid game"] count_cells_compl [of is_revealed "grid game'"]
    by (simp add: hidden_def)
qed

lemma hidden_marked:
  assumes r: "rect (grid game)" and s: "\<not> stops (grid game) i j"
  shows "Suc (hidden (grid (marked game i j))) = hidden (grid game)"
proof -
  from s have o: "\<not> outside (grid game) i j" and c: "\<not> is_revealed (cell_at (grid game) i j)"
    by (auto simp: stops_def)
  show ?thesis
    using count_cells_upd_cell [OF r o, of "\<lambda>cell. \<not> is_revealed cell" "\<lambda>cell. cell\<lparr>is_revealed := True\<rparr>"] c
    by (simp add: marked_def hidden_def)
qed

lemma hidden_le: "rect g \<Longrightarrow> hidden g \<le> length g * length (g ! 0)"
  using count_cells_le [of "\<lambda>cell. \<not> is_revealed cell" g] by (simp add: hidden_def length_concat_rect)

lemma expand_fuel_enough:
  "rect (grid game) \<Longrightarrow> hidden (grid game) < n \<Longrightarrow> \<exists>game'. expand_fuel n game i j = Some game'"
proof (induction n arbitrary: game i j)
  case 0
  then show ?case by simp
next
  case (Suc n)
  show ?case
  proof (cases "stops (grid game) i j
      \<or> count_flagged_neighbors (grid game) i j \<noteq> count_bomb_neighbors (grid game) i j")
    case True
    with Suc.prems show ?thesis by (auto simp add: expand_fuel_Suc simp del: expand_fuel.simps)
  next
    case False
    then have s: "\<not> stops (grid game) i j" by simp
    let ?Q = "\<lambda>g :: Game. rect (grid g) \<and> hidden (grid g) < n"
    have q: "?Q (marked game i j)"
      using hidden_marked [OF Suc.prems(1) s] Suc.prems grows_rect [OF grows_marked [OF Suc.prems(1) s]]
      by simp
    have step: "\<And>g a b. ?Q g \<Longrightarrow> \<exists>g'. expand_fuel n g a b = Some g' \<and> ?Q g'"
    proof -
      fix g a b assume h: "?Q g"
      with Suc.IH obtain g' where g': "expand_fuel n g a b = Some g'" by blast
      with h have "grows g g'" by (simp add: expand_fuel_grows)
      with h have "?Q g'" using grows_rect grows_hidden by (meson le_less_trans)
      with g' show "\<exists>g'. expand_fuel n g a b = Some g' \<and> ?Q g'" by blast
    qed
    from for_dirs_total [where Q = ?Q and f = "expand_fuel n" and ds = dir4 and i = i and j = j, OF step q]
    obtain game' where "for_dirs (expand_fuel n) dir4 i j (marked game i j) = Some game'" by blast
    with False Suc.prems show ?thesis by (simp add: expand_fuel_Suc del: expand_fuel.simps)
  qed
qed

lemma expand_body_mono:
  assumes "\<And>g a b g'. f g a b = Some g' \<Longrightarrow> f' g a b = Some g'"
  shows "expand_body f game i j = Some game' \<Longrightarrow> expand_body f' game i j = Some game'"
  unfolding expand_body_def Let_def
  by (auto split: if_splits intro: for_dirs_mono [of f f', OF assms])

lemma expand_fuel_Suc_mono:
  "expand_fuel n game i j = Some game' \<Longrightarrow> expand_fuel (Suc n) game i j = Some game'"
proof (induction n arbitrary: game i j game')
  case 0
  then show ?case by simp
next
  case (Suc n)
  from Suc.prems have "expand_body (expand_fuel n) game i j = Some game'"
    by (simp only: expand_fuel_body)
  then have "expand_body (expand_fuel (Suc n)) game i j = Some game'"
    by (rule expand_body_mono [rotated]) (rule Suc.IH)
  then show ?case by (simp only: expand_fuel_body)
qed

lemma expand_fuel_mono:
  "n \<le> m \<Longrightarrow> expand_fuel n game i j = Some game' \<Longrightarrow> expand_fuel m game i j = Some game'"
  by (induction m) (auto simp: le_Suc_eq expand_fuel_Suc_mono simp del: expand_fuel.simps)

lemma expand_fuel_eq_expand:
  assumes r: "rect (grid game)" and h: "hidden (grid game) < n"
  shows "expand_fuel n game i j = expand game i j"
proof -
  let ?N = "Suc (length (grid game) * length (grid game ! 0))"
  from expand_fuel_enough [OF r h] obtain g' where g': "expand_fuel n game i j = Some g'" by blast
  have "hidden (grid game) < ?N" using hidden_le [OF r] by simp
  from expand_fuel_enough [OF r this] obtain g'' where g'': "expand_fuel ?N game i j = Some g''"
    by blast
  have "g'' = g'"
  proof (cases "n \<le> ?N")
    case True
    from expand_fuel_mono [OF True g'] g'' show ?thesis by simp
  next
    case False
    then have "?N \<le> n" by simp
    from expand_fuel_mono [OF this g''] g' show ?thesis by simp
  qed
  with g' g'' show ?thesis by (simp add: expand_def)
qed

lemma expand_returns:
  assumes r: "rect (grid game)"
  shows "\<exists>game'. expand game i j = Some game' \<and> grows game game'"
proof -
  have "hidden (grid game) < Suc (length (grid game) * length (grid game ! 0))"
    using hidden_le [OF r] by simp
  from expand_fuel_enough [OF r this] obtain g' where
    "expand_fuel (Suc (length (grid game) * length (grid game ! 0))) game i j = Some g'" by blast
  with expand_fuel_grows [OF r this] show ?thesis by (simp add: expand_def)
qed

lemma expand_grows: "rect (grid game) \<Longrightarrow> expand game i j = Some game' \<Longrightarrow> grows game game'"
  unfolding expand_def by (rule expand_fuel_grows)

lemma for_dirs_expand_returns:
  assumes r: "rect (grid game)"
  shows "\<exists>game'. for_dirs expand ds i j game = Some game' \<and> rect (grid game')"
proof -
  have step: "\<And>g a b. rect (grid g) \<Longrightarrow> \<exists>g'. expand g a b = Some g' \<and> rect (grid g')"
    using expand_returns grows_rect by blast
  from for_dirs_total [where Q = "\<lambda>g. rect (grid g)" and f = expand and ds = ds and i = i and j = j,
      OF step r]
  show ?thesis .
qed

lemma for_dirs_expand_grows:
  assumes r: "rect (grid game)" and f: "for_dirs expand ds i j game = Some game'"
  shows "grows game game'"
proof -
  have step: "\<And>g a b g'. rect (grid g) \<Longrightarrow> expand g a b = Some g' \<Longrightarrow> grows g g' \<and> rect (grid g')"
    using expand_grows grows_rect by blast
  from for_dirs_rel [where Q = "\<lambda>g. rect (grid g)" and R = grows and f = expand,
      OF step grows_refl grows_trans r f]
  show ?thesis by simp
qed

lemma try_reveal_returns:
  assumes r: "rect (grid game)"
  shows "\<exists>res game'. try_reveal game (i, j) = Some (res, game')"
proof -
  from expand_returns [OF r, of i j] obtain g1 where e: "expand game i j = Some g1" by blast
  from for_dirs_expand_returns [OF r, of dir8 i j] obtain g2 where
    f: "for_dirs expand dir8 i j game = Some g2" by blast
  show ?thesis by (simp add: e f)
qed

lemma grows_diff:
  assumes "grows game game'"
  shows "count_revealed game' - count_revealed game =
           of_nat (count_cells is_revealed (grid game') - count_cells is_revealed (grid game))"
proof -
  from assms have le: "count_cells is_revealed (grid game) \<le> count_cells is_revealed (grid game')"
    and d: "count_revealed game' - count_revealed game =
       of_nat (count_cells is_revealed (grid game')) - of_nat (count_cells is_revealed (grid game))"
    by (simp_all add: grows_def)
  from le show ?thesis by (simp add: d of_nat_diff)
qed

lemma count_cells_rect_le: "rect g \<Longrightarrow> count_cells P g \<le> length g * length (g ! 0)"
  using count_cells_le [of P g] by (simp add: length_concat_rect)

section \<open>The flood reaches every open neighbour\<close>

lemma grows_cell:
  assumes "grows game game'" "\<not> outside (grid game) a b"
  shows "type (cell_at (grid game') a b) = type (cell_at (grid game) a b)"
    and "is_flagged (cell_at (grid game') a b) = is_flagged (cell_at (grid game) a b)"
    and "is_revealed (cell_at (grid game) a b) \<Longrightarrow> is_revealed (cell_at (grid game') a b)"
    and "type (cell_at (grid game) a b) = BOMB \<Longrightarrow>
           is_revealed (cell_at (grid game') a b) = is_revealed (cell_at (grid game) a b)"
  using assms unfolding grows_def by blast+

lemma grows_enterable:
  "grows game game' \<Longrightarrow> enterable (grid game') a b = enterable (grid game) a b"
  using grows_outside [of game game' a b] grows_cell(1,2) [of game game' a b]
  by (auto simp: enterable_def)

lemma grows_conducts:
  assumes g: "grows game game'"
  shows "conducts (grid game') a b = conducts (grid game) a b"
proof -
  from g have ml: "map length (grid game') = map length (grid game)" by (simp add: grows_def)
  have "count_flagged_neighbors (grid game') a b = count_flagged_neighbors (grid game) a b"
    unfolding count_flagged_neighbors_def
    by (rule count_neighbors_cong [OF ml]) (simp add: grows_cell(2) [OF g])
  moreover have "count_bomb_neighbors (grid game') a b = count_bomb_neighbors (grid game) a b"
    unfolding count_bomb_neighbors_def
    by (rule count_neighbors_cong [OF ml]) (simp add: grows_cell(1) [OF g])
  ultimately show ?thesis by (simp add: conducts_def)
qed

lemma floods_refl: "floods game game"
  unfolding floods_def closed_step_def using grows_refl by blast

lemma floods_trans:
  assumes ab: "floods a b" and bc: "floods b c"
  shows "floods a c"
proof -
  from ab bc have gab: "grows a b" and gbc: "grows b c"
    and cab: "closed_step a b" and cbc: "closed_step b c"
    by (simp_all add: floods_def)
  have gac: "grows a c" using gab gbc by (rule grows_trans)
  have "closed_step a c"
    unfolding closed_step_def
  proof (intro allI impI ballI)
    fix x y d
    assume h: "\<not> outside (grid a) x y \<and> is_revealed (cell_at (grid c) x y)
             \<and> \<not> is_revealed (cell_at (grid a) x y) \<and> conducts (grid a) x y"
      and d: "d \<in> set dir4" and e: "enterable (grid a) (x + fst d) (y + snd d)"
    from h have ob: "\<not> outside (grid b) x y" by (simp add: grows_outside [OF gab])
    from e have eb: "enterable (grid b) (x + fst d) (y + snd d)"
      by (simp add: grows_enterable [OF gab])
    then have nb: "\<not> outside (grid b) (x + fst d) (y + snd d)" by (simp add: enterable_def)
    show "is_revealed (cell_at (grid c) (x + fst d) (y + snd d))"
    proof (cases "is_revealed (cell_at (grid b) x y)")
      case True
      with h cab d e have "is_revealed (cell_at (grid b) (x + fst d) (y + snd d))"
        unfolding closed_step_def by blast
      then show ?thesis by (rule grows_cell(3) [OF gbc nb])
    next
      case False
      from h have "conducts (grid b) x y" by (simp add: grows_conducts [OF gab])
      with False h ob cbc d eb show ?thesis
        unfolding closed_step_def by blast
    qed
  qed
  with gac show ?thesis by (simp add: floods_def)
qed

lemma for_dirs_targets:
  assumes step: "\<And>g a b g'. rect (grid g) \<Longrightarrow> f g a b = Some g' \<Longrightarrow>
      grows g g' \<and> (enterable (grid g) a b \<longrightarrow> is_revealed (cell_at (grid g') a b))"
  shows "rect (grid g) \<Longrightarrow> for_dirs f ds i j g = Some g' \<Longrightarrow>
     \<forall>d \<in> set ds. enterable (grid g) (i + fst d) (j + snd d)
        \<longrightarrow> is_revealed (cell_at (grid g') (i + fst d) (j + snd d))"
proof (induction ds arbitrary: g)
  case Nil
  then show ?case by simp
next
  case (Cons d ds)
  from Cons.prems(2) obtain g2 where
    g2: "f g (i + fst d) (j + snd d) = Some g2" and rest: "for_dirs f ds i j g2 = Some g'"
    by (auto split: option.splits)
  from step [OF Cons.prems(1) g2] have gr: "grows g g2"
    and hit: "enterable (grid g) (i + fst d) (j + snd d)
        \<Longrightarrow> is_revealed (cell_at (grid g2) (i + fst d) (j + snd d))" by simp_all
  have r2: "rect (grid g2)" using gr Cons.prems(1) by (rule grows_rect)
  have step': "\<And>g a b g'. rect (grid g) \<Longrightarrow> f g a b = Some g' \<Longrightarrow> grows g g' \<and> rect (grid g')"
    using step grows_rect by blast
  from for_dirs_rel [where Q = "\<lambda>g. rect (grid g)" and R = grows and f = f,
      OF step' grows_refl grows_trans r2 rest]
  have gr2: "grows g2 g'" by simp
  note ih = Cons.IH [OF r2 rest]
  show ?case
  proof
    fix d' assume d': "d' \<in> set (d # ds)"
    show "enterable (grid g) (i + fst d') (j + snd d')
        \<longrightarrow> is_revealed (cell_at (grid g') (i + fst d') (j + snd d'))"
    proof
      assume e: "enterable (grid g) (i + fst d') (j + snd d')"
      then have e2: "enterable (grid g2) (i + fst d') (j + snd d')"
        by (simp add: grows_enterable [OF gr])
      then have o2: "\<not> outside (grid g2) (i + fst d') (j + snd d')" by (simp add: enterable_def)
      show "is_revealed (cell_at (grid g') (i + fst d') (j + snd d'))"
      proof (cases "d' \<in> set ds")
        case True
        with ih e2 show ?thesis by blast
      next
        case False
        with d' have "d' = d" by simp
        with hit e have "is_revealed (cell_at (grid g2) (i + fst d') (j + snd d'))" by simp
        then show ?thesis by (rule grows_cell(3) [OF gr2 o2])
      qed
    qed
  qed
qed

lemma closed_step_marked_stop:
  assumes r: "rect (grid game)" and s: "\<not> stops (grid game) i j"
    and c: "\<not> conducts (grid game) i j"
  shows "closed_step game (marked game i j)"
proof -
  from s have o: "\<not> outside (grid game) i j" by (simp add: stops_def)
  show ?thesis
    unfolding closed_step_def
  proof (intro allI impI ballI)
    fix x y d
    assume h: "\<not> outside (grid game) x y \<and> is_revealed (cell_at (grid (marked game i j)) x y)
             \<and> \<not> is_revealed (cell_at (grid game) x y) \<and> conducts (grid game) x y"
    then have ox: "\<not> outside (grid game) x y" by simp
    have "x = i \<and> y = j"
    proof (rule ccontr)
      assume "\<not> (x = i \<and> y = j)"
      with marked_cell [OF r o ox]
      have "cell_at (grid (marked game i j)) x y = cell_at (grid game) x y" by auto
      with h show False by auto
    qed
    with h c show "is_revealed (cell_at (grid (marked game i j)) (x + fst d) (y + snd d))"
      by simp
  qed
qed

lemma expand_fuel_floods:
  "rect (grid game) \<Longrightarrow> expand_fuel n game i j = Some game' \<Longrightarrow>
     floods game game' \<and> (enterable (grid game) i j \<longrightarrow> is_revealed (cell_at (grid game') i j))"
proof (induction n arbitrary: game i j game')
  case 0
  then show ?case by simp
next
  case (Suc n)
  note r = Suc.prems(1)
  show ?case
  proof (cases "stops (grid game) i j")
    case True
    with Suc.prems have "game' = game" by (simp add: expand_fuel_Suc del: expand_fuel.simps)
    moreover from True have "enterable (grid game) i j \<longrightarrow> is_revealed (cell_at (grid game) i j)"
      by (auto simp: stops_def enterable_def)
    ultimately show ?thesis by (simp add: floods_refl)
  next
    case False
    then have o: "\<not> outside (grid game) i j" by (simp add: stops_def)
    note m = grows_marked [OF r False]
    have rm: "rect (grid (marked game i j))" using m r by (rule grows_rect)
    have here: "is_revealed (cell_at (grid (marked game i j)) i j)"
      by (simp add: marked_cell [OF r o o])
    show ?thesis
    proof (cases "conducts (grid game) i j")
      case c: False
      with False Suc.prems have "game' = marked game i j"
        by (simp add: expand_fuel_Suc conducts_def del: expand_fuel.simps)
      with m closed_step_marked_stop [OF r False c] here show ?thesis by (simp add: floods_def)
    next
      case c: True
      with False Suc.prems have f: "for_dirs (expand_fuel n) dir4 i j (marked game i j) = Some game'"
        by (simp add: expand_fuel_Suc conducts_def del: expand_fuel.simps)
      have step1: "\<And>g a b g'. rect (grid g) \<Longrightarrow> expand_fuel n g a b = Some g' \<Longrightarrow>
          floods g g' \<and> rect (grid g')"
        using Suc.IH grows_rect unfolding floods_def by blast
      from for_dirs_rel [where Q = "\<lambda>g. rect (grid g)" and R = floods and f = "expand_fuel n",
          OF step1 floods_refl floods_trans rm f]
      have fl: "floods (marked game i j) game'" by simp
      then have gm: "grows (marked game i j) game'" and cm: "closed_step (marked game i j) game'"
        by (simp_all add: floods_def)
      have step2: "\<And>g a b g'. rect (grid g) \<Longrightarrow> expand_fuel n g a b = Some g' \<Longrightarrow>
          grows g g' \<and> (enterable (grid g) a b \<longrightarrow> is_revealed (cell_at (grid g') a b))"
        using Suc.IH unfolding floods_def by blast
      from for_dirs_targets [where f = "expand_fuel n", OF step2 rm f]
      have tg: "\<forall>d \<in> set dir4. enterable (grid (marked game i j)) (i + fst d) (j + snd d)
        \<longrightarrow> is_revealed (cell_at (grid game') (i + fst d) (j + snd d))" .
      have g: "grows game game'" using m gm by (rule grows_trans)
      have "closed_step game game'"
        unfolding closed_step_def
      proof (intro allI impI ballI)
        fix x y d
        assume h: "\<not> outside (grid game) x y \<and> is_revealed (cell_at (grid game') x y)
             \<and> \<not> is_revealed (cell_at (grid game) x y) \<and> conducts (grid game) x y"
          and d: "d \<in> set dir4" and e: "enterable (grid game) (x + fst d) (y + snd d)"
        from e have em: "enterable (grid (marked game i j)) (x + fst d) (y + snd d)"
          by (simp add: grows_enterable [OF m])
        show "is_revealed (cell_at (grid game') (x + fst d) (y + snd d))"
        proof (cases "x = i \<and> y = j")
          case True
          with tg d em show ?thesis by blast
        next
          case False
          from h have ox: "\<not> outside (grid game) x y" by simp
          from False marked_cell [OF r o ox]
          have "cell_at (grid (marked game i j)) x y = cell_at (grid game) x y" by auto
          with h have "\<not> is_revealed (cell_at (grid (marked game i j)) x y)" by auto
          moreover from h have "\<not> outside (grid (marked game i j)) x y"
            by (simp add: grows_outside [OF m])
          moreover from h have "conducts (grid (marked game i j)) x y"
            by (simp add: grows_conducts [OF m])
          ultimately show ?thesis
            using cm h d em unfolding closed_step_def by blast
        qed
      qed
      moreover have "is_revealed (cell_at (grid game') i j)"
        using here o by (auto intro: grows_cell(3) [OF gm] simp: grows_outside [OF m])
      ultimately show ?thesis using g by (simp add: floods_def)
    qed
  qed
qed

lemma expand_floods:
  "rect (grid game) \<Longrightarrow> expand game i j = Some game' \<Longrightarrow>
     floods game game' \<and> (enterable (grid game) i j \<longrightarrow> is_revealed (cell_at (grid game') i j))"
  unfolding expand_def by (rule expand_fuel_floods)

lemma region_revealed:
  assumes fl: "floods game game'"
    and st: "is_revealed (cell_at (grid game') i j)"
    and z: "zero_region (grid game) R" and u: "untouched (grid game) R"
  shows "path4 R (i, j) q \<Longrightarrow>
           q \<in> R \<and> is_revealed (cell_at (grid game') (fst q) (snd q))"
proof (induction rule: path4.induct)
  case start
  with st show ?case by simp
next
  case (step q d)
  from step have q: "q \<in> R" and rq: "is_revealed (cell_at (grid game') (fst q) (snd q))"
    by simp_all
  from z q have q1: "\<not> outside (grid game) (fst q) (snd q)"
    and q2: "count_bomb_neighbors (grid game) (fst q) (snd q) = 0"
    by (auto simp: zero_region_def)
  from u q have q3: "\<not> is_revealed (cell_at (grid game) (fst q) (snd q))"
    and q4: "count_flagged_neighbors (grid game) (fst q) (snd q) = 0"
    by (auto simp: untouched_def)
  from q2 q4 have c: "conducts (grid game) (fst q) (snd q)" by (simp add: conducts_def)
  from z u step.hyps(3) have e: "enterable (grid game) (fst q + fst d) (snd q + snd d)"
    by (auto simp: zero_region_def untouched_def enterable_def)
  from fl have "closed_step game game'" by (simp add: floods_def)
  with q1 rq q3 c step.hyps(2) e
  have "is_revealed (cell_at (grid game') (fst q + fst d) (snd q + snd d))"
    unfolding closed_step_def by blast
  with step.hyps(3) show ?case by simp
qed

section \<open>Unfolding on concrete games\<close>

lemmas eval_defs = new_Game_def fill_grid_def new_Cell_def outside_def cell_at_def upd_cell_def
  count_flagged_neighbors_def count_bomb_neighbors_def count_neighbors_def dir4_def dir8_def
  upt_conv_Cons

lemmas run_defs = new_Game_def fill_grid_def new_Cell_def restart_def reveal_step_def expand_def
  outside_def cell_at_def upd_cell_def count_flagged_neighbors_def count_bomb_neighbors_def
  count_neighbors_def dir4_def dir8_def is_won_def check_won_def count_cells_def

section \<open>The invariant of the reachable states\<close>

lemma count_cells_none: "(\<And>r c. r \<in> set g \<Longrightarrow> c \<in> set r \<Longrightarrow> \<not> P c) \<Longrightarrow> count_cells P g = 0"
  by (auto simp: count_cells_def filter_empty_conv)

lemma count_cells_upd_same:
  assumes "rect g" "\<not> outside g i j" "P (f (cell_at g i j)) = P (cell_at g i j)"
  shows "count_cells P (upd_cell f g i j) = count_cells P g"
  using count_cells_upd_cell [OF assms(1,2), of P f] assms(3) by simp

lemma cell_in_grid:
  assumes "rect g" "\<not> outside g i j"
  shows "cell_at g i j \<in> set (concat g)"
proof -
  from assms have "nat i < length g" "nat j < length (g ! nat i)"
    using inside_bounds [of g i j] inside_row [of g i j] by auto
  then have "g ! nat i \<in> set g" "g ! nat i ! nat j \<in> set (g ! nat i)" by simp_all
  then show ?thesis unfolding cell_at_def by auto
qed

lemma none_revealed_cell:
  assumes "count_cells is_revealed g = 0" "rect g" "\<not> outside g i j"
  shows "\<not> is_revealed (cell_at g i j)"
  using assms(1) cell_in_grid [OF assms(2,3)]
  by (auto simp: count_cells_def filter_empty_conv)

lemma rect_fill: "rect (map (\<lambda>r. map (f r) [0..<n]) [0..<m])"
proof (cases m)
  case 0
  then show ?thesis by (simp add: rect_def)
next
  case (Suc k)
  then have "map (\<lambda>r. map (f r) [0..<n]) [0..<m] ! 0 = map (f 0) [0..<n]"
    by (simp add: upt_conv_Cons del: upt_Suc)
  then show ?thesis by (auto simp: rect_def)
qed

lemma consistent_fresh: "consistent (new_Game m n hit fm0)"
proof -
  have "\<And>P. (\<And>t. \<not> P (new_Cell t)) \<Longrightarrow>
      count_cells P (map (\<lambda>r. map (\<lambda>c. new_Cell (if hit (r * n + c) then BOMB else EMPTY))
                               [0..<n]) [0..<m]) = 0"
    by (rule count_cells_none) auto
  then have "count_cells safe_revealed (grid (new_Game m n hit fm0)) = 0"
    and "count_cells is_revealed (grid (new_Game m n hit fm0)) = 0"
    by (simp_all add: new_Game_def fill_grid_def new_Cell_def safe_revealed_def)
  moreover have "rect (grid (new_Game m n hit fm0))"
    by (simp add: new_Game_def fill_grid_def rect_fill)
  moreover have "count_revealed (new_Game m n hit fm0) = 0"
    by (simp add: new_Game_def fill_grid_def)
  ultimately show ?thesis by (simp add: consistent_def)
qed

lemma consistent_restart: "consistent game \<Longrightarrow> consistent (restart game)"
proof -
  assume c: "consistent game"
  have "map length (grid (restart game)) = map length (grid game)"
    by (simp add: restart_def)
  with c have "rect (grid (restart game))" by (auto simp: consistent_def intro: rect_cong)
  moreover have "count_cells safe_revealed (grid (restart game)) = 0"
    and "count_cells is_revealed (grid (restart game)) = 0"
    by (rule count_cells_none; auto simp: restart_def safe_revealed_def)+
  ultimately show ?thesis by (simp add: consistent_def) (simp add: restart_def)
qed

lemma consistent_check_won: "consistent game \<Longrightarrow> consistent (check_won game)"
  by (simp add: consistent_def check_won_def)

lemma consistent_flag:
  assumes c: "consistent game" and t: "try_set_flag game (i, j) v = (res, game')"
  shows "consistent game'"
proof (cases "outside (grid game) i j \<or> is_revealed (cell_at (grid game) i j)")
  case True
  with t have "game' = game" by (auto split: if_splits)
  with c show ?thesis by simp
next
  case False
  then have o: "\<not> outside (grid game) i j" by simp
  from c have r: "rect (grid game)" by (simp add: consistent_def)
  from False t have g': "game' = game\<lparr>count_flagged := count_flagged game + (if v then 1 else - 1),
                 grid := upd_cell (\<lambda>cell. cell\<lparr>is_flagged := v\<rparr>) (grid game) i j\<rparr>"
    by auto
  have "count_cells safe_revealed (grid game') = count_cells safe_revealed (grid game)"
    and "count_cells is_revealed (grid game') = count_cells is_revealed (grid game)"
    unfolding g' by (simp_all add: count_cells_upd_same [OF r o] safe_revealed_def)
  moreover have "rect (grid game')" unfolding g' using r by (simp add: rect_upd_cell)
  ultimately show ?thesis using c by (simp add: consistent_def) (simp add: g')
qed

lemma grows_count:
  assumes g: "grows game game'"
    and c: "count_revealed game = of_nat (count_cells safe_revealed (grid game))"
  shows "count_revealed game' = of_nat (count_cells safe_revealed (grid game'))"
proof -
  from g have "count_revealed game' - count_revealed game =
       of_nat (count_cells safe_revealed (grid game')) - of_nat (count_cells safe_revealed (grid game))"
    unfolding grows_def by blast
  with c show ?thesis by simp
qed

lemma consistent_try_reveal:
  assumes r: "rect (grid game)"
    and c: "count_revealed game = of_nat (count_cells safe_revealed (grid game))"
    and t: "try_reveal game (i, j) = Some (res, game')"
  shows "rect (grid game') \<and> count_revealed game' = of_nat (count_cells safe_revealed (grid game'))
           \<and> first_move game' = first_move game"
proof (cases "outside (grid game) i j \<or> is_flagged (cell_at (grid game) i j)")
  case True
  with t have "game' = game" by (auto split: if_splits)
  with r c show ?thesis by simp
next
  case False
  then have o: "\<not> outside (grid game) i j" and nf: "\<not> is_flagged (cell_at (grid game) i j)"
    by simp_all
  show ?thesis
  proof (cases "type (cell_at (grid game) i j) = BOMB")
    case True
    with False t have g': "game' =
        game\<lparr>grid := upd_cell (\<lambda>cell. cell\<lparr>is_revealed := True\<rparr>) (grid game) i j\<rparr>"
      by auto
    have "count_cells safe_revealed (grid game') = count_cells safe_revealed (grid game)"
      unfolding g' using True by (simp add: count_cells_upd_same [OF r o] safe_revealed_def)
    moreover have "rect (grid game')" unfolding g' using r by (simp add: rect_upd_cell)
    ultimately show ?thesis using c by (simp add: g')
  next
    case nb: False
    then have e: "type (cell_at (grid game) i j) = EMPTY" by (cases "type (cell_at (grid game) i j)") auto
    show ?thesis
    proof (cases "is_revealed (cell_at (grid game) i j)")
      case nr: False
      from expand_returns [OF r, of i j] obtain g1 where
        x: "expand game i j = Some g1" and g: "grows game g1" by blast
      from o nf nb nr t x have g': "game' =
          g1\<lparr>grid := upd_cell (\<lambda>cell. cell\<lparr>is_revealed := True\<rparr>) (grid g1) i j\<rparr>"
        by auto
      have r1: "rect (grid g1)" using g r by (rule grows_rect)
      have o1: "\<not> outside (grid g1) i j" using o by (simp add: grows_outside [OF g])
      from o nf e have "enterable (grid game) i j" by (simp add: enterable_def)
      with expand_floods [OF r x] have "is_revealed (cell_at (grid g1) i j)" by simp
      then have "count_cells safe_revealed (grid game') = count_cells safe_revealed (grid g1)"
        unfolding g' by (simp add: count_cells_upd_same [OF r1 o1] safe_revealed_def)
      moreover have "rect (grid game')" unfolding g' using r1 by (simp add: rect_upd_cell)
      moreover from g have "first_move g1 = first_move game" by (simp add: grows_def)
      ultimately show ?thesis using grows_count [OF g c] by (simp add: g')
    next
      case rv: True
      show ?thesis
      proof (cases "count_flagged_neighbors (grid game) i j \<noteq> count_bomb_neighbors (grid game) i j")
        case True
        with o nf nb rv t have "game' = game" by auto
        with r c show ?thesis by simp
      next
        case False
        from for_dirs_expand_returns [OF r, of dir8 i j] obtain g1 where
          x: "for_dirs expand dir8 i j game = Some g1" by blast
        with False o nf nb rv t have g': "game' = g1" by auto
        from for_dirs_expand_grows [OF r x] have g: "grows game g1" .
        from g have "first_move g1 = first_move game" by (simp add: grows_def)
        with grows_rect [OF g r] grows_count [OF g c] show ?thesis by (simp add: g')
      qed
    qed
  qed
qed

lemma consistent_reveal:
  assumes c: "consistent game" and t: "reveal_step game i j = Inr (res, game')"
  shows "consistent game'"
proof -
  from c have r: "rect (grid game)"
    and n: "count_revealed game = of_nat (count_cells safe_revealed (grid game))"
    and f: "first_move game \<Longrightarrow> count_cells is_revealed (grid game) = 0"
    by (simp_all add: consistent_def)
  define game2 where "game2 =
     (if first_move game
      then game\<lparr>grid := upd_cell (\<lambda>cell. cell\<lparr>type := EMPTY\<rparr>) (grid game) i j\<rparr>
      else game)\<lparr>first_move := False\<rparr>"
  from t have ok: "\<not> (first_move game \<and> outside (grid game) i j)"
    by (auto simp: reveal_step_def)
  have r2: "rect (grid game2)" using r by (simp add: game2_def rect_upd_cell)
  have n2: "count_revealed game2 = of_nat (count_cells safe_revealed (grid game2))"
  proof (cases "first_move game")
    case True
    with ok have o: "\<not> outside (grid game) i j" by simp
    from none_revealed_cell [OF f [OF True] r o]
    have "count_cells safe_revealed (upd_cell (\<lambda>cell. cell\<lparr>type := EMPTY\<rparr>) (grid game) i j)
            = count_cells safe_revealed (grid game)"
      by (simp add: count_cells_upd_same [OF r o] safe_revealed_def)
    with True n show ?thesis by (simp add: game2_def)
  next
    case False
    with n show ?thesis by (simp add: game2_def)
  qed
  have f2: "\<not> first_move game2" by (simp add: game2_def)
  from try_reveal_returns [OF r2, of i j] obtain res3 game3 where
    t3: "try_reveal game2 (i, j) = Some (res3, game3)" by blast
  from consistent_try_reveal [OF r2 n2 t3] f2 have c3: "consistent game3"
    by (simp add: consistent_def)
  from t ok t3 have "game' = game3 \<or> game' = game3\<lparr>state := OVER\<rparr>"
    unfolding reveal_step_def Let_def game2_def [symmetric]
    by (cases res3) auto
  with c3 show ?thesis by (auto simp: consistent_def)
qed

lemma reachable_consistent: "reachable game \<Longrightarrow> consistent game"
proof (induction rule: reachable.induct)
  case (fresh m n hit fm0)
  show ?case by (rule consistent_fresh)
next
  case (flagged game i j v r game')
  then show ?case by (blast intro: consistent_flag)
next
  case (revealed game i j r game')
  then show ?case by (blast intro: consistent_reveal)
next
  case (restarted game)
  then show ?case by (blast intro: consistent_restart)
next
  case (checked game)
  then show ?case by (blast intro: consistent_check_won)
qed

section \<open>Whole commands\<close>

lemma flag_loop_reachable: "reachable game \<Longrightarrow> reachable (flag_loop game args v)"
proof (induction game args v rule: flag_loop.induct)
  case (1 game i j rest v)
  have "reachable (snd (try_set_flag game (i, j) v))"
    by (rule reachable.flagged [OF "1.prems", of i j v "fst (try_set_flag game (i, j) v)"]) simp
  with "1.IH" show ?case by simp
qed simp_all

lemma flag_reachable: "reachable game \<Longrightarrow> reachable (snd (flag game args v))"
  by (simp add: flag_def flag_loop_reachable)

lemma reveal_loop_reachable:
  "reachable game \<Longrightarrow> reveal_loop game args = Inr game' \<Longrightarrow> reachable game'"
proof (induction game args arbitrary: game' rule: reveal_loop.induct)
  case (1 game i j rest)
  show ?case
  proof (cases "reveal_step game i j")
    case (Inl e)
    with "1.prems"(2) show ?thesis by simp
  next
    case (Inr p)
    obtain r g1 where p: "p = (r, g1)" by (cases p)
    from "1.prems"(1) Inr p have r1: "reachable g1" by (blast intro: reachable.revealed)
    show ?thesis
    proof (cases "r = LosingMove")
      case True
      with Inr p "1.prems"(2) have "game' = g1" by simp
      with r1 show ?thesis by simp
    next
      case False
      with Inr p "1.prems"(2) have "reveal_loop g1 rest = Inr game'" by simp
      from "1.IH" [OF Inr p [symmetric] False r1 this] show ?thesis .
    qed
  qed
qed simp_all

lemma reveal_reachable:
  assumes r: "reachable game" and c: "reveal game args = Inr (ok, game')"
  shows "reachable game'"
proof (cases "length args < 2 \<or> odd (length args)")
  case True
  with c have "game' = game" by (simp add: reveal_def)
  with r show ?thesis by simp
next
  case False
  with c obtain g where "reveal_loop game args = Inr g" and "game' = g"
    by (cases "reveal_loop game args") (simp_all add: reveal_def)
  with r show ?thesis by (blast intro: reveal_loop_reachable)
qed

lemma reveal_step_returns:
  assumes r: "rect (grid game)" and ok: "\<not> (first_move game \<and> outside (grid game) i j)"
  shows "\<exists>res game'. reveal_step game i j = Inr (res, game')"
proof -
  define game2 where "game2 =
     (if first_move game
      then game\<lparr>grid := upd_cell (\<lambda>cell. cell\<lparr>type := EMPTY\<rparr>) (grid game) i j\<rparr>
      else game)\<lparr>first_move := False\<rparr>"
  have "rect (grid game2)" using r by (simp add: game2_def rect_upd_cell)
  from try_reveal_returns [OF this, of i j] obtain res3 game3 where
    t: "try_reveal game2 (i, j) = Some (res3, game3)" by blast
  have "reveal_step game i j =
      (case try_reveal game2 (i, j) of
             None \<Rightarrow> Inl NoReturn
           | Some (LosingMove, game3) \<Rightarrow> Inr (LosingMove, game3\<lparr>state := OVER\<rparr>)
           | Some (r, game3) \<Rightarrow> Inr (r, game3))"
    using ok unfolding reveal_step_def Let_def game2_def by (auto simp del: try_reveal.simps)
  then show ?thesis by (cases res3) (simp_all add: t del: try_reveal.simps)
qed

section \<open>One call of expand, unfolded\<close>

lemma expand_unfold:
  assumes r: "rect (grid game)" and s: "\<not> stops (grid game) i j"
  shows "expand game i j =
          (if count_flagged_neighbors (grid game) i j = count_bomb_neighbors (grid game) i j
           then for_dirs expand dir4 i j (marked game i j)
           else Some (marked game i j))"
proof -
  let ?N = "length (grid game) * length (grid game ! 0)"
  let ?Q = "\<lambda>g :: Game. rect (grid g) \<and> hidden (grid g) < ?N
              \<and> length (grid g) * length (grid g ! 0) = ?N"
  note m = grows_marked [OF r s]
  have dims: "\<And>g g'. grows g g' \<Longrightarrow>
      length (grid g') * length (grid g' ! 0) = length (grid g) * length (grid g ! 0)"
  proof -
    fix g g' :: Game assume "grows g g'"
    then have ml: "map length (grid g') = map length (grid g)" by (simp add: grows_def)
    then have l: "length (grid g') = length (grid g)" by (rule map_eq_imp_length_eq)
    show "length (grid g') * length (grid g' ! 0) = length (grid g) * length (grid g ! 0)"
    proof (cases "grid g = []")
      case True
      with l show ?thesis by simp
    next
      case False
      with l have "0 < length (grid g)" "0 < length (grid g')" by auto
      with ml have "length (grid g' ! 0) = length (grid g ! 0)" by (metis nth_map)
      with l show ?thesis by simp
    qed
  qed
  have q: "?Q (marked game i j)"
    using hidden_marked [OF r s] hidden_le [OF r] grows_rect [OF m r] dims [OF m] by simp
  have step: "\<And>g a b. ?Q g \<Longrightarrow>
      expand_fuel ?N g a b = expand g a b \<and> (\<forall>g'. expand_fuel ?N g a b = Some g' \<longrightarrow> ?Q g')"
  proof -
    fix g :: Game and a b assume h: "?Q g"
    then have e1: "expand_fuel ?N g a b = expand g a b" by (simp add: expand_fuel_eq_expand)
    have e2: "\<forall>g'. expand_fuel ?N g a b = Some g' \<longrightarrow> ?Q g'"
    proof (intro allI impI)
      fix g' assume e: "expand_fuel ?N g a b = Some g'"
      from h e have g: "grows g g'" by (simp add: expand_fuel_grows)
      from h grows_rect [OF g] grows_hidden [OF g] dims [OF g]
      show "?Q g'" by simp
    qed
    from e1 e2 show "expand_fuel ?N g a b = expand g a b
        \<and> (\<forall>g'. expand_fuel ?N g a b = Some g' \<longrightarrow> ?Q g')" by (rule conjI)
  qed
  have "for_dirs (expand_fuel ?N) dir4 i j (marked game i j)
          = for_dirs expand dir4 i j (marked game i j)"
    by (rule for_dirs_cong_inv [where Q = ?Q, OF step q])
  then show ?thesis
    using s by (simp add: expand_def expand_fuel_Suc [OF r] del: expand_fuel.simps)
qed

section \<open>The claims\<close>

text \<open>
  Claim C1. The claim: in every reachable state the game is won exactly when
  \<open>count_revealed\<close> equals rows times columns minus \<open>count_bombs\<close>, and that holds exactly
  when every cell that is not a bomb is revealed, also after the first-move rule has turned
  the first cell asked for into an empty cell. The first equivalence is the definition of
  \<open>is_won\<close>. The second fails after the first-move rule: the rule changes the cell's type
  and leaves \<open>count_bombs\<close> as it was. On a 1 by 2 grid whose cell (0,0) is a bomb, after a
  restart, revealing (0,0) turns the cell empty and the flood reveals both cells: every
  cell that is not a bomb is revealed, \<open>count_revealed\<close> is 2, \<open>count_bombs\<close> is still 1, and
  \<open>is_won\<close> is false.
\<close>

theorem first_move_conversion_unwinnable:
  "reveal_step (restart (new_Game 1 2 (\<lambda>k. k = 0) fm0)) 0 0 =
     Inr (Success,
          \<lparr>count_bombs = 1, count_flagged = 0, count_revealed = 2, first_move = False,
           state = ACTIVE,
           grid = [[\<lparr>type = EMPTY, is_flagged = False, is_revealed = True\<rparr>,
                    \<lparr>type = EMPTY, is_flagged = False, is_revealed = True\<rparr>]]\<rparr>)
   \<and> reachable
          \<lparr>count_bombs = 1, count_flagged = 0, count_revealed = 2, first_move = False,
           state = ACTIVE,
           grid = [[\<lparr>type = EMPTY, is_flagged = False, is_revealed = True\<rparr>,
                    \<lparr>type = EMPTY, is_flagged = False, is_revealed = True\<rparr>]]\<rparr>
   \<and> count_cells (\<lambda>cell. type cell \<noteq> BOMB \<and> \<not> is_revealed cell)
         [[\<lparr>type = EMPTY, is_flagged = False, is_revealed = True\<rparr>,
           \<lparr>type = EMPTY, is_flagged = False, is_revealed = True\<rparr>]] = 0
   \<and> \<not> is_won
          \<lparr>count_bombs = 1, count_flagged = 0, count_revealed = 2, first_move = False,
           state = ACTIVE,
           grid = [[\<lparr>type = EMPTY, is_flagged = False, is_revealed = True\<rparr>,
                    \<lparr>type = EMPTY, is_flagged = False, is_revealed = True\<rparr>]]\<rparr>"
proof -
  have s: "reveal_step (restart (new_Game 1 2 (\<lambda>k. k = 0) fm0)) 0 0 =
     Inr (Success,
          \<lparr>count_bombs = 1, count_flagged = 0, count_revealed = 2, first_move = False,
           state = ACTIVE,
           grid = [[\<lparr>type = EMPTY, is_flagged = False, is_revealed = True\<rparr>,
                    \<lparr>type = EMPTY, is_flagged = False, is_revealed = True\<rparr>]]\<rparr>)"
    by (simp add: run_defs upt_conv_Cons)
  have "reachable (new_Game 1 2 (\<lambda>k. k = 0) fm0)"
    by (rule reachable.fresh) simp_all
  then have "reachable (restart (new_Game 1 2 (\<lambda>k. k = 0) fm0))"
    by (rule reachable.restarted)
  then have "reachable
          \<lparr>count_bombs = 1, count_flagged = 0, count_revealed = 2, first_move = False,
           state = ACTIVE,
           grid = [[\<lparr>type = EMPTY, is_flagged = False, is_revealed = True\<rparr>,
                    \<lparr>type = EMPTY, is_flagged = False, is_revealed = True\<rparr>]]\<rparr>"
    using s by (rule reachable.revealed)
  with s show ?thesis by (simp add: is_won_def count_cells_def)
qed

text \<open>
  Claim C2, as stated, fails on the losing path of \<open>try_reveal\<close>: the bomb is marked
  revealed and \<open>count_revealed\<close> is not incremented. After the first reveal of a fresh
  1 by 1 game whose cell is a bomb (with \<open>first_move\<close> read as false), one cell is
  revealed and the counter is 0.
\<close>

theorem revealed_count_counterexample:
  "reachable
     \<lparr>count_bombs = 1, count_flagged = 0, count_revealed = 0, first_move = False,
      state = OVER,
      grid = [[\<lparr>type = BOMB, is_flagged = False, is_revealed = True\<rparr>]]\<rparr>
   \<and> count_revealed
     \<lparr>count_bombs = 1, count_flagged = 0, count_revealed = 0, first_move = False,
      state = OVER,
      grid = [[\<lparr>type = BOMB, is_flagged = False, is_revealed = True\<rparr>]]\<rparr>
     \<noteq> of_nat (count_cells is_revealed
          [[\<lparr>type = BOMB, is_flagged = False, is_revealed = True\<rparr>]])"
proof -
  have "reachable (new_Game 1 1 (\<lambda>k. True) False)"
    by (rule reachable.fresh) simp_all
  moreover have "reveal_step (new_Game 1 1 (\<lambda>k. True) False) 0 0 =
     Inr (LosingMove,
          \<lparr>count_bombs = 1, count_flagged = 0, count_revealed = 0, first_move = False,
           state = OVER,
           grid = [[\<lparr>type = BOMB, is_flagged = False, is_revealed = True\<rparr>]]\<rparr>)"
    by (simp add: run_defs)
  ultimately have "reachable
     \<lparr>count_bombs = 1, count_flagged = 0, count_revealed = 0, first_move = False,
      state = OVER,
      grid = [[\<lparr>type = BOMB, is_flagged = False, is_revealed = True\<rparr>]]\<rparr>"
    by (rule reachable.revealed)
  then show ?thesis by (simp add: count_cells_def)
qed

text \<open>
  Claim C2, amended. In every reachable state \<open>count_revealed\<close> equals, as a
  \<open>uint32_t\<close>, the number of cells that are revealed and are not bombs. Reveal requests
  (the losing path included, which marks the bomb without counting it), flag requests,
  the expansion inside a reveal, restarts and win tests all keep this equality.
\<close>

theorem revealed_count_invariant:
  "(reachable game
      \<longrightarrow> count_revealed game = of_nat (count_cells safe_revealed (grid game)))
   \<and> (rect (grid game)
        \<and> count_revealed game = of_nat (count_cells safe_revealed (grid game))
        \<and> expand game i j = Some game'
      \<longrightarrow> count_revealed game' = of_nat (count_cells safe_revealed (grid game')))"
proof (intro conjI impI)
  assume "reachable game"
  then have "consistent game" by (rule reachable_consistent)
  then show "count_revealed game = of_nat (count_cells safe_revealed (grid game))"
    by (simp add: consistent_def)
next
  assume h: "rect (grid game)
        \<and> count_revealed game = of_nat (count_cells safe_revealed (grid game))
        \<and> expand game i j = Some game'"
  then have "grows game game'" by (auto intro: expand_grows)
  with h show "count_revealed game' = of_nat (count_cells safe_revealed (grid game'))"
    by (auto intro: grows_count)
qed

theorem revealed_count_invariant_witness:
  "reachable (new_Game 1 3 (\<lambda>k. k = 1) False)
   \<and> reveal_step (new_Game 1 3 (\<lambda>k. k = 1) False) 0 0 =
       Inr (Success,
            \<lparr>count_bombs = 1, count_flagged = 0, count_revealed = 1, first_move = False,
             state = ACTIVE,
             grid = [[\<lparr>type = EMPTY, is_flagged = False, is_revealed = True\<rparr>,
                      \<lparr>type = BOMB, is_flagged = False, is_revealed = False\<rparr>,
                      \<lparr>type = EMPTY, is_flagged = False, is_revealed = False\<rparr>]]\<rparr>)
   \<and> reveal_step \<lparr>count_bombs = 1, count_flagged = 0, count_revealed = 1, first_move = False,
             state = ACTIVE,
             grid = [[\<lparr>type = EMPTY, is_flagged = False, is_revealed = True\<rparr>,
                      \<lparr>type = BOMB, is_flagged = False, is_revealed = False\<rparr>,
                      \<lparr>type = EMPTY, is_flagged = False, is_revealed = False\<rparr>]]\<rparr> 0 1 =
       Inr (LosingMove,
            \<lparr>count_bombs = 1, count_flagged = 0, count_revealed = 1, first_move = False,
             state = OVER,
             grid = [[\<lparr>type = EMPTY, is_flagged = False, is_revealed = True\<rparr>,
                      \<lparr>type = BOMB, is_flagged = False, is_revealed = True\<rparr>,
                      \<lparr>type = EMPTY, is_flagged = False, is_revealed = False\<rparr>]]\<rparr>)
   \<and> reachable
        \<lparr>count_bombs = 1, count_flagged = 0, count_revealed = 1, first_move = False,
         state = OVER,
         grid = [[\<lparr>type = EMPTY, is_flagged = False, is_revealed = True\<rparr>,
                  \<lparr>type = BOMB, is_flagged = False, is_revealed = True\<rparr>,
                  \<lparr>type = EMPTY, is_flagged = False, is_revealed = False\<rparr>]]\<rparr>
   \<and> count_cells safe_revealed
        [[\<lparr>type = EMPTY, is_flagged = False, is_revealed = True\<rparr>,
          \<lparr>type = BOMB, is_flagged = False, is_revealed = True\<rparr>,
          \<lparr>type = EMPTY, is_flagged = False, is_revealed = False\<rparr>]] = 1
   \<and> (1 :: 32 word) = of_nat (count_cells safe_revealed
        [[\<lparr>type = EMPTY, is_flagged = False, is_revealed = True\<rparr>,
          \<lparr>type = BOMB, is_flagged = False, is_revealed = True\<rparr>,
          \<lparr>type = EMPTY, is_flagged = False, is_revealed = False\<rparr>]])
   \<and> rect (grid (new_Game 1 3 (\<lambda>k. k = 1) False))
   \<and> count_revealed (new_Game 1 3 (\<lambda>k. k = 1) False)
        = of_nat (count_cells safe_revealed (grid (new_Game 1 3 (\<lambda>k. k = 1) False)))
   \<and> expand (new_Game 1 3 (\<lambda>k. k = 1) False) 0 0
        = Some (marked (new_Game 1 3 (\<lambda>k. k = 1) False) 0 0)
   \<and> count_revealed (marked (new_Game 1 3 (\<lambda>k. k = 1) False) 0 0)
        = of_nat (count_cells safe_revealed
            (grid (marked (new_Game 1 3 (\<lambda>k. k = 1) False) 0 0)))"
proof -
  let ?G0 = "new_Game 1 3 (\<lambda>k. k = 1) False"
  let ?G1 = "\<lparr>count_bombs = 1, count_flagged = 0, count_revealed = 1, first_move = False,
             state = ACTIVE,
             grid = [[\<lparr>type = EMPTY, is_flagged = False, is_revealed = True\<rparr>,
                      \<lparr>type = BOMB, is_flagged = False, is_revealed = False\<rparr>,
                      \<lparr>type = EMPTY, is_flagged = False, is_revealed = False\<rparr>]]\<rparr>"
  let ?G2 = "\<lparr>count_bombs = 1, count_flagged = 0, count_revealed = 1, first_move = False,
         state = OVER,
         grid = [[\<lparr>type = EMPTY, is_flagged = False, is_revealed = True\<rparr>,
                  \<lparr>type = BOMB, is_flagged = False, is_revealed = True\<rparr>,
                  \<lparr>type = EMPTY, is_flagged = False, is_revealed = False\<rparr>]]\<rparr>"
  have r0: "reachable ?G0" by (rule reachable.fresh) simp_all
  have s1: "reveal_step ?G0 0 0 = Inr (Success, ?G1)" by (simp add: run_defs upt_conv_Cons)
  have r1: "reachable ?G1" using r0 s1 by (rule reachable.revealed)
  have s2: "reveal_step ?G1 0 1 = Inr (LosingMove, ?G2)" by (simp add: run_defs)
  have r2: "reachable ?G2" using r1 s2 by (rule reachable.revealed)
  have n: "count_cells safe_revealed (grid ?G2) = 1"
    by (simp add: count_cells_def safe_revealed_def)
  from revealed_count_invariant [of ?G2] r2
  have a: "count_revealed ?G2 = of_nat (count_cells safe_revealed (grid ?G2))" by blast
  have h: "rect (grid ?G0)"
    "count_revealed ?G0 = of_nat (count_cells safe_revealed (grid ?G0))"
    "expand ?G0 0 0 = Some (marked ?G0 0 0)"
    by (simp_all add: rect_def expand_def marked_def eval_defs count_cells_def safe_revealed_def)
  from revealed_count_invariant [of ?G0 0 0 "marked ?G0 0 0"] h
  have b: "count_revealed (marked ?G0 0 0)
        = of_nat (count_cells safe_revealed (grid (marked ?G0 0 0)))" by blast
  from r0 s1 s2 r2 n a h b show ?thesis by simp
qed

text \<open>
  Claim C3. The claim: \<open>count_flagged\<close> equals the number of flagged cells in every
  reachable state, also after repeated flag requests with the same value on the same
  cell. \<open>try_set_flag\<close> adds or subtracts 1 without looking at the flag the cell has.
  On a fresh 1 by 1 game, flagging (0,0) twice leaves one flagged cell and a counter of
  2; unflagging (0,0) once leaves no flagged cell and a counter of \<open>2^32 - 1\<close>.
\<close>

theorem repeated_flag_miscounts:
  "count_flagged (snd (try_set_flag (snd (try_set_flag (new_Game 1 1 (\<lambda>k. False) fm0) (0, 0) True))
                      (0, 0) True)) = 2
   \<and> count_cells is_flagged
        (grid (snd (try_set_flag (snd (try_set_flag (new_Game 1 1 (\<lambda>k. False) fm0) (0, 0) True))
                      (0, 0) True))) = 1
   \<and> count_flagged (snd (try_set_flag (new_Game 1 1 (\<lambda>k. False) fm0) (0, 0) False)) = 4294967295
   \<and> count_cells is_flagged
        (grid (snd (try_set_flag (new_Game 1 1 (\<lambda>k. False) fm0) (0, 0) False))) = 0"
  by (simp add: run_defs)

text \<open>
  Claim C4. The claim: on a freshly constructed game the first reveal request cannot hit
  a bomb, because the cell is first turned empty, whatever the coordinates. The
  constructor leaves \<open>first_move\<close> uninitialised. When the member reads as false, the
  first reveal of a 1 by 1 game whose cell is a bomb is a losing move; when it reads as
  true the same request succeeds. With \<open>first_move\<close> set and coordinates outside the
  grid, the assignment to \<open>grid[i][j].type\<close> is made before any bounds check.
\<close>

theorem first_reveal_hits_mine:
  "reveal_step (new_Game 1 1 (\<lambda>k. True) False) 0 0 =
     Inr (LosingMove,
          \<lparr>count_bombs = 1, count_flagged = 0, count_revealed = 0, first_move = False,
           state = OVER,
           grid = [[\<lparr>type = BOMB, is_flagged = False, is_revealed = True\<rparr>]]\<rparr>)
   \<and> reveal_step (new_Game 1 1 (\<lambda>k. True) True) 0 0 =
     Inr (Success,
          \<lparr>count_bombs = 1, count_flagged = 0, count_revealed = 1, first_move = False,
           state = ACTIVE,
           grid = [[\<lparr>type = EMPTY, is_flagged = False, is_revealed = True\<rparr>]]\<rparr>)
   \<and> reveal_step (new_Game 1 1 (\<lambda>k. True) True) 0 1 = Inl OutOfRangeWrite"
  by (simp add: run_defs)

text \<open>
  Claim C5. The claim: the bombs-left query returns \<open>max(mine_count - flagged_count, 0)\<close>,
  that is 0 whenever more cells are flagged than there are mines. The code subtracts in
  \<open>uint32_t\<close> and takes the maximum with \<open>0u\<close>, which changes nothing: the query
  returns the wrapped difference. On a one-cell grid with no bomb, after one flag, it
  returns \<open>2^32 - 1\<close>.
\<close>

theorem bombs_left_wraps:
  "bombs_left game = count_bombs game - count_flagged game
   \<and> count_bombs (snd (try_set_flag (new_Game 1 1 (\<lambda>k. False) fm0) (0, 0) True)) = 0
   \<and> count_flagged (snd (try_set_flag (new_Game 1 1 (\<lambda>k. False) fm0) (0, 0) True)) = 1
   \<and> bombs_left (snd (try_set_flag (new_Game 1 1 (\<lambda>k. False) fm0) (0, 0) True)) = 4294967295"
  by (simp add: bombs_left_def new_Game_def fill_grid_def new_Cell_def outside_def cell_at_def)

text \<open>
  Claim C6, as stated, fails in two ways. On a 1 by 2 grid with no bomb whose cell (0,1)
  is flagged, \<open>expand\<close> at (0,0) reveals (0,0) only: the flagged cell is skipped, and the
  flag also makes the counts at (0,0) differ. On a 1 by 3 grid with no bomb and no flag
  whose middle cell is already revealed, \<open>expand\<close> at (0,0) stops at the middle cell and
  never reaches (0,2).
\<close>

theorem expand_region_counterexample:
  "reachable \<lparr>count_bombs = 0, count_flagged = 1, count_revealed = 0, first_move = False,
             state = ACTIVE,
             grid = [[\<lparr>type = EMPTY, is_flagged = False, is_revealed = False\<rparr>,
                      \<lparr>type = EMPTY, is_flagged = True, is_revealed = False\<rparr>]]\<rparr>
   \<and> zero_region [[\<lparr>type = EMPTY, is_flagged = False, is_revealed = False\<rparr>,
                 \<lparr>type = EMPTY, is_flagged = True, is_revealed = False\<rparr>]] {(0, 0), (0, 1)}
   \<and> path4 {(0, 0), (0, 1)} (0, 0) (0, 1)
   \<and> expand \<lparr>count_bombs = 0, count_flagged = 1, count_revealed = 0, first_move = False,
             state = ACTIVE,
             grid = [[\<lparr>type = EMPTY, is_flagged = False, is_revealed = False\<rparr>,
                      \<lparr>type = EMPTY, is_flagged = True, is_revealed = False\<rparr>]]\<rparr> 0 0
       = Some \<lparr>count_bombs = 0, count_flagged = 1, count_revealed = 1, first_move = False,
               state = ACTIVE,
               grid = [[\<lparr>type = EMPTY, is_flagged = False, is_revealed = True\<rparr>,
                        \<lparr>type = EMPTY, is_flagged = True, is_revealed = False\<rparr>]]\<rparr>
   \<and> reachable \<lparr>count_bombs = 0, count_flagged = 0, count_revealed = 1, first_move = False,
             state = ACTIVE,
             grid = [[\<lparr>type = EMPTY, is_flagged = False, is_revealed = False\<rparr>,
                      \<lparr>type = EMPTY, is_flagged = False, is_revealed = True\<rparr>,
                      \<lparr>type = EMPTY, is_flagged = False, is_revealed = False\<rparr>]]\<rparr>
   \<and> zero_region [[\<lparr>type = EMPTY, is_flagged = False, is_revealed = False\<rparr>,
                   \<lparr>type = EMPTY, is_flagged = False, is_revealed = True\<rparr>,
                   \<lparr>type = EMPTY, is_flagged = False, is_revealed = False\<rparr>]]
         {(0, 0), (0, 1), (0, 2)}
   \<and> path4 {(0, 0), (0, 1), (0, 2)} (0, 0) (0, 2)
   \<and> expand \<lparr>count_bombs = 0, count_flagged = 0, count_revealed = 1, first_move = False,
             state = ACTIVE,
             grid = [[\<lparr>type = EMPTY, is_flagged = False, is_revealed = False\<rparr>,
                      \<lparr>type = EMPTY, is_flagged = False, is_revealed = True\<rparr>,
                      \<lparr>type = EMPTY, is_flagged = False, is_revealed = False\<rparr>]]\<rparr> 0 0
       = Some \<lparr>count_bombs = 0, count_flagged = 0, count_revealed = 2, first_move = False,
               state = ACTIVE,
               grid = [[\<lparr>type = EMPTY, is_flagged = False, is_revealed = True\<rparr>,
                        \<lparr>type = EMPTY, is_flagged = False, is_revealed = True\<rparr>,
                        \<lparr>type = EMPTY, is_flagged = False, is_revealed = False\<rparr>]]\<rparr>"
proof -
  have p0: "path4 {(0, 0), (0, 1)} (0, 0) (0, 0)" by (rule path4.start) simp
  have "path4 {(0, 0), (0, 1)} (0, 0) (fst (0 :: int, 0 :: int) + fst (0 :: int, 1 :: int),
                              snd (0 :: int, 0 :: int) + snd (0 :: int, 1 :: int))"
    by (rule path4.step [OF p0]) (simp_all add: dir4_def)
  then have pa: "path4 {(0, 0), (0, 1)} (0, 0) (0, 1)" by simp
  have q0: "path4 {(0, 0), (0, 1), (0, 2)} (0, 0) (0, 0)" by (rule path4.start) simp
  have "path4 {(0, 0), (0, 1), (0, 2)} (0, 0) (fst (0 :: int, 0 :: int) + fst (0 :: int, 1 :: int),
                              snd (0 :: int, 0 :: int) + snd (0 :: int, 1 :: int))"
    by (rule path4.step [OF q0]) (simp_all add: dir4_def)
  then have q1: "path4 {(0, 0), (0, 1), (0, 2)} (0, 0) (0, 1)" by simp
  have "path4 {(0, 0), (0, 1), (0, 2)} (0, 0) (fst (0 :: int, 1 :: int) + fst (0 :: int, 1 :: int),
                              snd (0 :: int, 1 :: int) + snd (0 :: int, 1 :: int))"
    by (rule path4.step [OF q1]) (simp_all add: dir4_def)
  then have pb: "path4 {(0, 0), (0, 1), (0, 2)} (0, 0) (0, 2)" by simp
  have a0: "reachable (new_Game 1 2 (\<lambda>k. False) False)"
    by (rule reachable.fresh) simp_all
  have ra: "reachable \<lparr>count_bombs = 0, count_flagged = 1, count_revealed = 0, first_move = False,
             state = ACTIVE,
             grid = [[\<lparr>type = EMPTY, is_flagged = False, is_revealed = False\<rparr>,
                      \<lparr>type = EMPTY, is_flagged = True, is_revealed = False\<rparr>]]\<rparr>"
    by (rule reachable.flagged [OF a0, of 0 1 True Success]) (simp add: eval_defs)
  have b0: "reachable (new_Game 1 3 (\<lambda>k. False) False)"
    by (rule reachable.fresh) simp_all
  have b1: "reachable \<lparr>count_bombs = 0, count_flagged = 1, count_revealed = 0, first_move = False,
             state = ACTIVE,
             grid = [[\<lparr>type = EMPTY, is_flagged = True, is_revealed = False\<rparr>,
                      \<lparr>type = EMPTY, is_flagged = False, is_revealed = False\<rparr>,
                      \<lparr>type = EMPTY, is_flagged = False, is_revealed = False\<rparr>]]\<rparr>"
    by (rule reachable.flagged [OF b0, of 0 0 True Success]) (simp add: eval_defs)
  have b2: "reachable \<lparr>count_bombs = 0, count_flagged = 2, count_revealed = 0, first_move = False,
             state = ACTIVE,
             grid = [[\<lparr>type = EMPTY, is_flagged = True, is_revealed = False\<rparr>,
                      \<lparr>type = EMPTY, is_flagged = False, is_revealed = False\<rparr>,
                      \<lparr>type = EMPTY, is_flagged = True, is_revealed = False\<rparr>]]\<rparr>"
    by (rule reachable.flagged [OF b1, of 0 2 True Success]) (simp add: eval_defs)
  have b3: "reachable \<lparr>count_bombs = 0, count_flagged = 2, count_revealed = 1, first_move = False,
             state = ACTIVE,
             grid = [[\<lparr>type = EMPTY, is_flagged = True, is_revealed = False\<rparr>,
                      \<lparr>type = EMPTY, is_flagged = False, is_revealed = True\<rparr>,
                      \<lparr>type = EMPTY, is_flagged = True, is_revealed = False\<rparr>]]\<rparr>"
    by (rule reachable.revealed [OF b2, of 0 1 Success]) (simp add: run_defs)
  have b4: "reachable \<lparr>count_bombs = 0, count_flagged = 1, count_revealed = 1, first_move = False,
             state = ACTIVE,
             grid = [[\<lparr>type = EMPTY, is_flagged = False, is_revealed = False\<rparr>,
                      \<lparr>type = EMPTY, is_flagged = False, is_revealed = True\<rparr>,
                      \<lparr>type = EMPTY, is_flagged = True, is_revealed = False\<rparr>]]\<rparr>"
    by (rule reachable.flagged [OF b3, of 0 0 False Success]) (simp add: eval_defs)
  have rb: "reachable \<lparr>count_bombs = 0, count_flagged = 0, count_revealed = 1, first_move = False,
             state = ACTIVE,
             grid = [[\<lparr>type = EMPTY, is_flagged = False, is_revealed = False\<rparr>,
                      \<lparr>type = EMPTY, is_flagged = False, is_revealed = True\<rparr>,
                      \<lparr>type = EMPTY, is_flagged = False, is_revealed = False\<rparr>]]\<rparr>"
    by (rule reachable.flagged [OF b4, of 0 2 False Success]) (simp add: eval_defs)
  show ?thesis
    using pa pb ra rb by (simp add: zero_region_def expand_def eval_defs)
qed

text \<open>
  Claim C6, amended. Let \<open>R\<close> be a set of cells inside the grid, none of them a bomb and
  none with a bomb among its 8 neighbours, and let no cell of \<open>R\<close> be flagged, be revealed
  or have a flagged cell among its 8 neighbours. Then \<open>expand\<close> at a cell of \<open>R\<close> returns,
  and afterwards every cell that a path of orthogonal steps inside \<open>R\<close> joins to the
  starting cell is revealed. From any starting cell and under any flags, \<open>expand\<close>
  leaves the revealed bit of every bomb as it was. On a 2 by 2 grid with no bomb,
  revealing (0,0) reveals all 4 cells, \<open>count_revealed\<close> is 4 and the game is won.
\<close>

theorem expand_floods_region:
  "(rect (grid game) \<and> zero_region (grid game) R \<and> untouched (grid game) R
      \<and> (i, j) \<in> R \<and> path4 R (i, j) (a, b)
    \<longrightarrow> (\<exists>game'. expand game i j = Some game' \<and> is_revealed (cell_at (grid game') a b)))
   \<and> (rect (grid game) \<and> expand game i j = Some game'
        \<and> \<not> outside (grid game) a b \<and> type (cell_at (grid game) a b) = BOMB
    \<longrightarrow> is_revealed (cell_at (grid game') a b) = is_revealed (cell_at (grid game) a b))
   \<and> reveal_step (new_Game 2 2 (\<lambda>k. False) fm0) 0 0 =
       Inr (Success,
            \<lparr>count_bombs = 0, count_flagged = 0, count_revealed = 4, first_move = False,
             state = ACTIVE,
             grid = [[\<lparr>type = EMPTY, is_flagged = False, is_revealed = True\<rparr>,
                      \<lparr>type = EMPTY, is_flagged = False, is_revealed = True\<rparr>],
                     [\<lparr>type = EMPTY, is_flagged = False, is_revealed = True\<rparr>,
                      \<lparr>type = EMPTY, is_flagged = False, is_revealed = True\<rparr>]]\<rparr>)
   \<and> is_won \<lparr>count_bombs = 0, count_flagged = 0, count_revealed = 4, first_move = False,
             state = ACTIVE,
             grid = [[\<lparr>type = EMPTY, is_flagged = False, is_revealed = True\<rparr>,
                      \<lparr>type = EMPTY, is_flagged = False, is_revealed = True\<rparr>],
                     [\<lparr>type = EMPTY, is_flagged = False, is_revealed = True\<rparr>,
                      \<lparr>type = EMPTY, is_flagged = False, is_revealed = True\<rparr>]]\<rparr>"
proof (intro conjI impI)
  assume h: "rect (grid game) \<and> zero_region (grid game) R \<and> untouched (grid game) R
      \<and> (i, j) \<in> R \<and> path4 R (i, j) (a, b)"
  then have r: "rect (grid game)" and z: "zero_region (grid game) R"
    and u: "untouched (grid game) R" and s: "(i, j) \<in> R" and p: "path4 R (i, j) (a, b)"
    by simp_all
  from expand_returns [OF r, of i j] obtain game' where e: "expand game i j = Some game'"
    by blast
  from expand_floods [OF r e] have fl: "floods game game'"
    and en: "enterable (grid game) i j \<Longrightarrow> is_revealed (cell_at (grid game') i j)"
    by simp_all
  from z u s have "enterable (grid game) i j"
    by (auto simp: zero_region_def untouched_def enterable_def)
  then have "is_revealed (cell_at (grid game') i j)" by (rule en)
  from region_revealed [OF fl this z u p] have "is_revealed (cell_at (grid game') a b)" by simp
  with e show "\<exists>game'. expand game i j = Some game' \<and> is_revealed (cell_at (grid game') a b)"
    by blast
next
  assume h: "rect (grid game) \<and> expand game i j = Some game'
        \<and> \<not> outside (grid game) a b \<and> type (cell_at (grid game) a b) = BOMB"
  then have "grows game game'" by (auto intro: expand_grows)
  with h show "is_revealed (cell_at (grid game') a b) = is_revealed (cell_at (grid game) a b)"
    by (simp add: grows_cell(4))
qed (simp_all add: new_Game_def fill_grid_def new_Cell_def reveal_step_def expand_def
  outside_def cell_at_def upd_cell_def count_flagged_neighbors_def count_bomb_neighbors_def
  count_neighbors_def dir4_def dir8_def is_won_def upt_conv_Cons)

theorem expand_floods_region_witness:
  "rect (grid (new_Game 2 2 (\<lambda>k. False) False))
   \<and> zero_region (grid (new_Game 2 2 (\<lambda>k. False) False)) {(0, 0), (0, 1), (1, 0), (1, 1)}
   \<and> untouched (grid (new_Game 2 2 (\<lambda>k. False) False)) {(0, 0), (0, 1), (1, 0), (1, 1)}
   \<and> path4 {(0, 0), (0, 1), (1, 0), (1, 1)} (0, 0) (1, 1)
   \<and> (\<exists>game'. expand (new_Game 2 2 (\<lambda>k. False) False) 0 0 = Some game'
          \<and> is_revealed (cell_at (grid game') 1 1))
   \<and> rect (grid (new_Game 1 3 (\<lambda>k. k = 1) False))
   \<and> expand (new_Game 1 3 (\<lambda>k. k = 1) False) 0 0
       = Some (marked (new_Game 1 3 (\<lambda>k. k = 1) False) 0 0)
   \<and> type (cell_at (grid (new_Game 1 3 (\<lambda>k. k = 1) False)) 0 1) = BOMB
   \<and> \<not> is_revealed (cell_at (grid (marked (new_Game 1 3 (\<lambda>k. k = 1) False) 0 0)) 0 1)"
proof -
  let ?G = "new_Game 2 2 (\<lambda>k. False) False"
  let ?R = "{(0, 0), (0, 1), (1, 0), (1, 1)} :: (int \<times> int) set"
  let ?H = "new_Game 1 3 (\<lambda>k. k = 1) False"
  have r: "rect (grid ?G)" by (simp add: rect_def eval_defs)
  have z: "zero_region (grid ?G) ?R" by (simp add: zero_region_def eval_defs)
  have u: "untouched (grid ?G) ?R" by (simp add: untouched_def eval_defs)
  have p0: "path4 ?R (0, 0) (0, 0)" by (rule path4.start) simp
  have p1: "path4 ?R (0, 0) (fst (0 :: int, 0 :: int) + fst (0 :: int, 1 :: int),
                              snd (0 :: int, 0 :: int) + snd (0 :: int, 1 :: int))"
    by (rule path4.step [OF p0]) (simp_all add: dir4_def)
  then have p1': "path4 ?R (0, 0) (0, 1)" by simp
  have p2: "path4 ?R (0, 0) (fst (0 :: int, 1 :: int) + fst (1 :: int, 0 :: int),
                              snd (0 :: int, 1 :: int) + snd (1 :: int, 0 :: int))"
    by (rule path4.step [OF p1']) (simp_all add: dir4_def)
  then have p: "path4 ?R (0, 0) (1, 1)" by simp
  have r2: "rect (grid ?H)" by (simp add: rect_def eval_defs)
  have e2: "expand ?H 0 0 = Some (marked ?H 0 0)"
    by (simp add: expand_def marked_def eval_defs)
  have o2: "\<not> outside (grid ?H) 0 1" and b2: "type (cell_at (grid ?H) 0 1) = BOMB"
    and n2: "\<not> is_revealed (cell_at (grid ?H) 0 1)"
    by (simp_all add: eval_defs)
  from expand_floods_region [of ?G ?R 0 0 1 1] r z u p
  have a1: "\<exists>game'. expand ?G 0 0 = Some game' \<and> is_revealed (cell_at (grid game') 1 1)"
    by simp
  from expand_floods_region [of ?H _ 0 0 0 1 "marked ?H 0 0"] r2 e2 o2 b2 n2
  have a2: "\<not> is_revealed (cell_at (grid (marked ?H 0 0)) 0 1)" by simp
  from r z u p a1 r2 e2 b2 a2 show ?thesis by blast
qed

text \<open>
  Claim C7. Let \<open>expand\<close> be called on a cell that passes its guard (inside the grid, not
  a bomb, not revealed, not flagged). The cell is marked revealed and counted, and then:
  \<^item> if the flagged-neighbour count equals the bomb-neighbour count (both over the 8
    neighbours), \<open>expand\<close> is called on \<open>(i, j + 1)\<close>, \<open>(i + 1, j)\<close>, \<open>(i, j - 1)\<close> and
    \<open>(i - 1, j)\<close> in this order, each call on the game the one before left, and the game
    of the last call is the result; in it the cell itself is revealed, and so is each of
    the four orthogonal neighbours that lies inside the grid and is neither a bomb nor
    flagged;
  \<^item> if the counts differ, the result is the game with this cell marked: the counter is
    one more, and every other cell of the grid is as it was.
  On the 1 by 3 grid [empty, bomb, empty] with no flag, revealing (0,0) is a
  \<open>Success\<close> that reveals (0,0) only, with \<open>count_revealed = 1\<close>; revealing (0,1) next is a
  \<open>LosingMove\<close> and the state becomes \<open>OVER\<close>. On a 1 by 2 grid with no bomb,
  revealing (0,0) enters (0,1) and reveals both cells. On a 2 by 2 grid whose only bomb
  is at (1,1), revealing (0,0) reveals (0,0) alone: its neighbours (0,1) and (1,0) could
  be entered, and are not, because the counts at (0,0) differ.
\<close>

theorem expand_recursion_rule:
  "(rect (grid game) \<and> \<not> outside (grid game) i j \<and> type (cell_at (grid game) i j) \<noteq> BOMB
      \<and> \<not> is_revealed (cell_at (grid game) i j) \<and> \<not> is_flagged (cell_at (grid game) i j)
    \<longrightarrow> expand game i j =
          (if count_flagged_neighbors (grid game) i j = count_bomb_neighbors (grid game) i j
           then for_dirs expand dir4 i j (marked game i j)
           else Some (marked game i j)))
   \<and> (rect (grid game) \<and> \<not> outside (grid game) i j \<and> type (cell_at (grid game) i j) \<noteq> BOMB
      \<and> \<not> is_revealed (cell_at (grid game) i j) \<and> \<not> is_flagged (cell_at (grid game) i j)
      \<and> count_flagged_neighbors (grid game) i j = count_bomb_neighbors (grid game) i j
    \<longrightarrow> (\<exists>g1 g2 g3 game'.
            expand (marked game i j) i (j + 1) = Some g1
            \<and> expand g1 (i + 1) j = Some g2
            \<and> expand g2 i (j - 1) = Some g3
            \<and> expand g3 (i - 1) j = Some game'
            \<and> expand game i j = Some game'
            \<and> is_revealed (cell_at (grid game') i j)
            \<and> (\<not> outside (grid game) i (j + 1) \<and> type (cell_at (grid game) i (j + 1)) \<noteq> BOMB
                    \<and> \<not> is_flagged (cell_at (grid game) i (j + 1))
                  \<longrightarrow> is_revealed (cell_at (grid game') i (j + 1)))
            \<and> (\<not> outside (grid game) (i + 1) j \<and> type (cell_at (grid game) (i + 1) j) \<noteq> BOMB
                    \<and> \<not> is_flagged (cell_at (grid game) (i + 1) j)
                  \<longrightarrow> is_revealed (cell_at (grid game') (i + 1) j))
            \<and> (\<not> outside (grid game) i (j - 1) \<and> type (cell_at (grid game) i (j - 1)) \<noteq> BOMB
                    \<and> \<not> is_flagged (cell_at (grid game) i (j - 1))
                  \<longrightarrow> is_revealed (cell_at (grid game') i (j - 1)))
            \<and> (\<not> outside (grid game) (i - 1) j \<and> type (cell_at (grid game) (i - 1) j) \<noteq> BOMB
                    \<and> \<not> is_flagged (cell_at (grid game) (i - 1) j)
                  \<longrightarrow> is_revealed (cell_at (grid game') (i - 1) j))))
   \<and> (rect (grid game) \<and> \<not> outside (grid game) i j \<and> type (cell_at (grid game) i j) \<noteq> BOMB
      \<and> \<not> is_revealed (cell_at (grid game) i j) \<and> \<not> is_flagged (cell_at (grid game) i j)
      \<and> count_flagged_neighbors (grid game) i j \<noteq> count_bomb_neighbors (grid game) i j
    \<longrightarrow> expand game i j = Some (marked game i j)
        \<and> count_revealed (marked game i j) = count_revealed game + 1
        \<and> is_revealed (cell_at (grid (marked game i j)) i j)
        \<and> (\<forall>a b. \<not> outside (grid game) a b \<and> (a \<noteq> i \<or> b \<noteq> j)
               \<longrightarrow> cell_at (grid (marked game i j)) a b = cell_at (grid game) a b))
   \<and> reveal_step (new_Game 1 3 (\<lambda>k. k = 1) fm0) 0 0 =
       Inr (Success,
            \<lparr>count_bombs = 1, count_flagged = 0, count_revealed = 1, first_move = False,
             state = ACTIVE,
             grid = [[\<lparr>type = EMPTY, is_flagged = False, is_revealed = True\<rparr>,
                      \<lparr>type = BOMB, is_flagged = False, is_revealed = False\<rparr>,
                      \<lparr>type = EMPTY, is_flagged = False, is_revealed = False\<rparr>]]\<rparr>)
   \<and> reveal_step \<lparr>count_bombs = 1, count_flagged = 0, count_revealed = 1, first_move = False,
             state = ACTIVE,
             grid = [[\<lparr>type = EMPTY, is_flagged = False, is_revealed = True\<rparr>,
                      \<lparr>type = BOMB, is_flagged = False, is_revealed = False\<rparr>,
                      \<lparr>type = EMPTY, is_flagged = False, is_revealed = False\<rparr>]]\<rparr> 0 1 =
       Inr (LosingMove,
            \<lparr>count_bombs = 1, count_flagged = 0, count_revealed = 1, first_move = False,
             state = OVER,
             grid = [[\<lparr>type = EMPTY, is_flagged = False, is_revealed = True\<rparr>,
                      \<lparr>type = BOMB, is_flagged = False, is_revealed = True\<rparr>,
                      \<lparr>type = EMPTY, is_flagged = False, is_revealed = False\<rparr>]]\<rparr>)
   \<and> reveal_step (new_Game 1 2 (\<lambda>k. False) fm0) 0 0 =
       Inr (Success,
            \<lparr>count_bombs = 0, count_flagged = 0, count_revealed = 2, first_move = False,
             state = ACTIVE,
             grid = [[\<lparr>type = EMPTY, is_flagged = False, is_revealed = True\<rparr>,
                      \<lparr>type = EMPTY, is_flagged = False, is_revealed = True\<rparr>]]\<rparr>)
   \<and> reveal_step (new_Game 2 2 (\<lambda>k. k = 3) fm0) 0 0 =
       Inr (Success,
            \<lparr>count_bombs = 1, count_flagged = 0, count_revealed = 1, first_move = False,
             state = ACTIVE,
             grid = [[\<lparr>type = EMPTY, is_flagged = False, is_revealed = True\<rparr>,
                      \<lparr>type = EMPTY, is_flagged = False, is_revealed = False\<rparr>],
                     [\<lparr>type = EMPTY, is_flagged = False, is_revealed = False\<rparr>,
                      \<lparr>type = BOMB, is_flagged = False, is_revealed = False\<rparr>]]\<rparr>)"
proof -
  have general: "(rect (grid game) \<and> \<not> outside (grid game) i j \<and> type (cell_at (grid game) i j) \<noteq> BOMB
      \<and> \<not> is_revealed (cell_at (grid game) i j) \<and> \<not> is_flagged (cell_at (grid game) i j)
    \<longrightarrow> expand game i j =
          (if count_flagged_neighbors (grid game) i j = count_bomb_neighbors (grid game) i j
           then for_dirs expand dir4 i j (marked game i j)
           else Some (marked game i j)))"
  proof
    assume a: "rect (grid game) \<and> \<not> outside (grid game) i j \<and> type (cell_at (grid game) i j) \<noteq> BOMB
      \<and> \<not> is_revealed (cell_at (grid game) i j) \<and> \<not> is_flagged (cell_at (grid game) i j)"
    then have r: "rect (grid game)" and s: "\<not> stops (grid game) i j"
      by (simp_all add: stops_def)
    show "expand game i j =
          (if count_flagged_neighbors (grid game) i j = count_bomb_neighbors (grid game) i j
           then for_dirs expand dir4 i j (marked game i j)
           else Some (marked game i j))"
      by (rule expand_unfold [OF r s])
  qed
  have enters: "(rect (grid game) \<and> \<not> outside (grid game) i j \<and> type (cell_at (grid game) i j) \<noteq> BOMB
      \<and> \<not> is_revealed (cell_at (grid game) i j) \<and> \<not> is_flagged (cell_at (grid game) i j)
      \<and> count_flagged_neighbors (grid game) i j = count_bomb_neighbors (grid game) i j
    \<longrightarrow> (\<exists>g1 g2 g3 game'.
            expand (marked game i j) i (j + 1) = Some g1
            \<and> expand g1 (i + 1) j = Some g2
            \<and> expand g2 i (j - 1) = Some g3
            \<and> expand g3 (i - 1) j = Some game'
            \<and> expand game i j = Some game'
            \<and> is_revealed (cell_at (grid game') i j)
            \<and> (\<not> outside (grid game) i (j + 1) \<and> type (cell_at (grid game) i (j + 1)) \<noteq> BOMB
                    \<and> \<not> is_flagged (cell_at (grid game) i (j + 1))
                  \<longrightarrow> is_revealed (cell_at (grid game') i (j + 1)))
            \<and> (\<not> outside (grid game) (i + 1) j \<and> type (cell_at (grid game) (i + 1) j) \<noteq> BOMB
                    \<and> \<not> is_flagged (cell_at (grid game) (i + 1) j)
                  \<longrightarrow> is_revealed (cell_at (grid game') (i + 1) j))
            \<and> (\<not> outside (grid game) i (j - 1) \<and> type (cell_at (grid game) i (j - 1)) \<noteq> BOMB
                    \<and> \<not> is_flagged (cell_at (grid game) i (j - 1))
                  \<longrightarrow> is_revealed (cell_at (grid game') i (j - 1)))
            \<and> (\<not> outside (grid game) (i - 1) j \<and> type (cell_at (grid game) (i - 1) j) \<noteq> BOMB
                    \<and> \<not> is_flagged (cell_at (grid game) (i - 1) j)
                  \<longrightarrow> is_revealed (cell_at (grid game') (i - 1) j))))"
  proof
    assume a: "rect (grid game) \<and> \<not> outside (grid game) i j \<and> type (cell_at (grid game) i j) \<noteq> BOMB
      \<and> \<not> is_revealed (cell_at (grid game) i j) \<and> \<not> is_flagged (cell_at (grid game) i j)
      \<and> count_flagged_neighbors (grid game) i j = count_bomb_neighbors (grid game) i j"
    then have r: "rect (grid game)" and s: "\<not> stops (grid game) i j"
      and o: "\<not> outside (grid game) i j"
      and c: "count_flagged_neighbors (grid game) i j = count_bomb_neighbors (grid game) i j"
      by (simp_all add: stops_def)
    from a have e0: "type (cell_at (grid game) i j) = EMPTY"
      by (cases "type (cell_at (grid game) i j)") simp_all
    from a have nr: "\<not> is_revealed (cell_at (grid game) i j)"
      and nf: "\<not> is_flagged (cell_at (grid game) i j)" by simp_all
    have rm: "rect (grid (marked game i j))"
      using grows_marked [OF r s] r by (rule grows_rect)
    from expand_returns [OF rm, of i "j + 1"] obtain g1 where
      x1: "expand (marked game i j) i (j + 1) = Some g1" and w1: "grows (marked game i j) g1"
      by blast
    have r1: "rect (grid g1)" using w1 rm by (rule grows_rect)
    from expand_returns [OF r1, of "i + 1" j] obtain g2 where
      x2: "expand g1 (i + 1) j = Some g2" and w2: "grows g1 g2" by blast
    have r2: "rect (grid g2)" using w2 r1 by (rule grows_rect)
    from expand_returns [OF r2, of i "j - 1"] obtain g3 where
      x3: "expand g2 i (j - 1) = Some g3" and w3: "grows g2 g3" by blast
    have r3: "rect (grid g3)" using w3 r2 by (rule grows_rect)
    from expand_returns [OF r3, of "i - 1" j] obtain game' where
      x4: "expand g3 (i - 1) j = Some game'" by blast
    have "for_dirs expand dir4 i j (marked game i j) = Some game'"
      by (simp add: dir4_def x1 x2 x3 x4)
    with expand_unfold [OF r s] c have e: "expand game i j = Some game'" by simp
    from expand_floods [OF r e] have cl: "closed_step game game'"
      and here: "enterable (grid game) i j \<longrightarrow> is_revealed (cell_at (grid game') i j)"
      by (simp_all add: floods_def)
    from o e0 nf here have h: "is_revealed (cell_at (grid game') i j)"
      by (simp add: enterable_def)
    from c have cd: "conducts (grid game) i j" by (simp add: conducts_def)
    have nb: "\<And>d. d \<in> set dir4 \<Longrightarrow> enterable (grid game) (i + fst d) (j + snd d)
        \<Longrightarrow> is_revealed (cell_at (grid game') (i + fst d) (j + snd d))"
      using cl o h nr cd unfolding closed_step_def by blast
    have en: "\<And>x y. \<not> outside (grid game) x y \<Longrightarrow> type (cell_at (grid game) x y) \<noteq> BOMB
                    \<Longrightarrow> \<not> is_flagged (cell_at (grid game) x y) \<Longrightarrow> enterable (grid game) x y"
    proof -
      fix x y
      assume "\<not> outside (grid game) x y" "type (cell_at (grid game) x y) \<noteq> BOMB"
        "\<not> is_flagged (cell_at (grid game) x y)"
      then show "enterable (grid game) x y"
        by (cases "type (cell_at (grid game) x y)") (simp_all add: enterable_def)
    qed
    have n1: "(\<not> outside (grid game) i (j + 1) \<and> type (cell_at (grid game) i (j + 1)) \<noteq> BOMB
                    \<and> \<not> is_flagged (cell_at (grid game) i (j + 1))
                  \<longrightarrow> is_revealed (cell_at (grid game') i (j + 1)))"
      using nb [of "(0, 1)"] en [of i "j + 1"] by (simp add: dir4_def)
    have n2: "(\<not> outside (grid game) (i + 1) j \<and> type (cell_at (grid game) (i + 1) j) \<noteq> BOMB
                    \<and> \<not> is_flagged (cell_at (grid game) (i + 1) j)
                  \<longrightarrow> is_revealed (cell_at (grid game') (i + 1) j))"
      using nb [of "(1, 0)"] en [of "i + 1" j] by (simp add: dir4_def)
    have n3: "(\<not> outside (grid game) i (j - 1) \<and> type (cell_at (grid game) i (j - 1)) \<noteq> BOMB
                    \<and> \<not> is_flagged (cell_at (grid game) i (j - 1))
                  \<longrightarrow> is_revealed (cell_at (grid game') i (j - 1)))"
      using nb [of "(0, - 1)"] en [of i "j - 1"] by (simp add: dir4_def)
    have n4: "(\<not> outside (grid game) (i - 1) j \<and> type (cell_at (grid game) (i - 1) j) \<noteq> BOMB
                    \<and> \<not> is_flagged (cell_at (grid game) (i - 1) j)
                  \<longrightarrow> is_revealed (cell_at (grid game') (i - 1) j))"
      using nb [of "(- 1, 0)"] en [of "i - 1" j] by (simp add: dir4_def)
    have "expand (marked game i j) i (j + 1) = Some g1
            \<and> expand g1 (i + 1) j = Some g2
            \<and> expand g2 i (j - 1) = Some g3
            \<and> expand g3 (i - 1) j = Some game'
            \<and> expand game i j = Some game'
            \<and> is_revealed (cell_at (grid game') i j)
            \<and> (\<not> outside (grid game) i (j + 1) \<and> type (cell_at (grid game) i (j + 1)) \<noteq> BOMB
                    \<and> \<not> is_flagged (cell_at (grid game) i (j + 1))
                  \<longrightarrow> is_revealed (cell_at (grid game') i (j + 1)))
            \<and> (\<not> outside (grid game) (i + 1) j \<and> type (cell_at (grid game) (i + 1) j) \<noteq> BOMB
                    \<and> \<not> is_flagged (cell_at (grid game) (i + 1) j)
                  \<longrightarrow> is_revealed (cell_at (grid game') (i + 1) j))
            \<and> (\<not> outside (grid game) i (j - 1) \<and> type (cell_at (grid game) i (j - 1)) \<noteq> BOMB
                    \<and> \<not> is_flagged (cell_at (grid game) i (j - 1))
                  \<longrightarrow> is_revealed (cell_at (grid game') i (j - 1)))
            \<and> (\<not> outside (grid game) (i - 1) j \<and> type (cell_at (grid game) (i - 1) j) \<noteq> BOMB
                    \<and> \<not> is_flagged (cell_at (grid game) (i - 1) j)
                  \<longrightarrow> is_revealed (cell_at (grid game') (i - 1) j))"
      using x1 x2 x3 x4 e h n1 n2 n3 n4 by - (intro conjI, assumption+)
    then show "(\<exists>g1 g2 g3 game'.
            expand (marked game i j) i (j + 1) = Some g1
            \<and> expand g1 (i + 1) j = Some g2
            \<and> expand g2 i (j - 1) = Some g3
            \<and> expand g3 (i - 1) j = Some game'
            \<and> expand game i j = Some game'
            \<and> is_revealed (cell_at (grid game') i j)
            \<and> (\<not> outside (grid game) i (j + 1) \<and> type (cell_at (grid game) i (j + 1)) \<noteq> BOMB
                    \<and> \<not> is_flagged (cell_at (grid game) i (j + 1))
                  \<longrightarrow> is_revealed (cell_at (grid game') i (j + 1)))
            \<and> (\<not> outside (grid game) (i + 1) j \<and> type (cell_at (grid game) (i + 1) j) \<noteq> BOMB
                    \<and> \<not> is_flagged (cell_at (grid game) (i + 1) j)
                  \<longrightarrow> is_revealed (cell_at (grid game') (i + 1) j))
            \<and> (\<not> outside (grid game) i (j - 1) \<and> type (cell_at (grid game) i (j - 1)) \<noteq> BOMB
                    \<and> \<not> is_flagged (cell_at (grid game) i (j - 1))
                  \<longrightarrow> is_revealed (cell_at (grid game') i (j - 1)))
            \<and> (\<not> outside (grid game) (i - 1) j \<and> type (cell_at (grid game) (i - 1) j) \<noteq> BOMB
                    \<and> \<not> is_flagged (cell_at (grid game) (i - 1) j)
                  \<longrightarrow> is_revealed (cell_at (grid game') (i - 1) j)))"
      by - (rule exI, rule exI, rule exI, rule exI, assumption)
  qed
  have halts: "(rect (grid game) \<and> \<not> outside (grid game) i j \<and> type (cell_at (grid game) i j) \<noteq> BOMB
      \<and> \<not> is_revealed (cell_at (grid game) i j) \<and> \<not> is_flagged (cell_at (grid game) i j)
      \<and> count_flagged_neighbors (grid game) i j \<noteq> count_bomb_neighbors (grid game) i j
    \<longrightarrow> expand game i j = Some (marked game i j)
        \<and> count_revealed (marked game i j) = count_revealed game + 1
        \<and> is_revealed (cell_at (grid (marked game i j)) i j)
        \<and> (\<forall>a b. \<not> outside (grid game) a b \<and> (a \<noteq> i \<or> b \<noteq> j)
               \<longrightarrow> cell_at (grid (marked game i j)) a b = cell_at (grid game) a b))"
  proof
    assume a: "rect (grid game) \<and> \<not> outside (grid game) i j \<and> type (cell_at (grid game) i j) \<noteq> BOMB
      \<and> \<not> is_revealed (cell_at (grid game) i j) \<and> \<not> is_flagged (cell_at (grid game) i j)
      \<and> count_flagged_neighbors (grid game) i j \<noteq> count_bomb_neighbors (grid game) i j"
    then have r: "rect (grid game)" and s: "\<not> stops (grid game) i j"
      and o: "\<not> outside (grid game) i j"
      and c: "count_flagged_neighbors (grid game) i j \<noteq> count_bomb_neighbors (grid game) i j"
      by (simp_all add: stops_def)
    from expand_unfold [OF r s] c have e: "expand game i j = Some (marked game i j)" by simp
    have k: "count_revealed (marked game i j) = count_revealed game + 1"
      by (simp add: marked_def)
    have h: "is_revealed (cell_at (grid (marked game i j)) i j)"
      by (simp add: marked_cell [OF r o o])
    have u: "\<forall>a b. \<not> outside (grid game) a b \<and> (a \<noteq> i \<or> b \<noteq> j)
               \<longrightarrow> cell_at (grid (marked game i j)) a b = cell_at (grid game) a b"
    proof (intro allI impI)
      fix a b assume p: "\<not> outside (grid game) a b \<and> (a \<noteq> i \<or> b \<noteq> j)"
      then have "\<not> outside (grid game) a b" by simp
      from marked_cell [OF r o this] p
      show "cell_at (grid (marked game i j)) a b = cell_at (grid game) a b" by auto
    qed
    show "expand game i j = Some (marked game i j)
        \<and> count_revealed (marked game i j) = count_revealed game + 1
        \<and> is_revealed (cell_at (grid (marked game i j)) i j)
        \<and> (\<forall>a b. \<not> outside (grid game) a b \<and> (a \<noteq> i \<or> b \<noteq> j)
               \<longrightarrow> cell_at (grid (marked game i j)) a b = cell_at (grid game) a b)"
      using e k h u by - (intro conjI, assumption+)
  qed
  have s1: "reveal_step (new_Game 1 3 (\<lambda>k. k = 1) fm0) 0 0 =
       Inr (Success,
            \<lparr>count_bombs = 1, count_flagged = 0, count_revealed = 1, first_move = False,
             state = ACTIVE,
             grid = [[\<lparr>type = EMPTY, is_flagged = False, is_revealed = True\<rparr>,
                      \<lparr>type = BOMB, is_flagged = False, is_revealed = False\<rparr>,
                      \<lparr>type = EMPTY, is_flagged = False, is_revealed = False\<rparr>]]\<rparr>)"
    by (simp add: run_defs dir4_def dir8_def upt_conv_Cons)
  have s2: "reveal_step \<lparr>count_bombs = 1, count_flagged = 0, count_revealed = 1, first_move = False,
             state = ACTIVE,
             grid = [[\<lparr>type = EMPTY, is_flagged = False, is_revealed = True\<rparr>,
                      \<lparr>type = BOMB, is_flagged = False, is_revealed = False\<rparr>,
                      \<lparr>type = EMPTY, is_flagged = False, is_revealed = False\<rparr>]]\<rparr> 0 1 =
       Inr (LosingMove,
            \<lparr>count_bombs = 1, count_flagged = 0, count_revealed = 1, first_move = False,
             state = OVER,
             grid = [[\<lparr>type = EMPTY, is_flagged = False, is_revealed = True\<rparr>,
                      \<lparr>type = BOMB, is_flagged = False, is_revealed = True\<rparr>,
                      \<lparr>type = EMPTY, is_flagged = False, is_revealed = False\<rparr>]]\<rparr>)"
    by (simp add: run_defs dir4_def dir8_def)
  have s3: "reveal_step (new_Game 1 2 (\<lambda>k. False) fm0) 0 0 =
       Inr (Success,
            \<lparr>count_bombs = 0, count_flagged = 0, count_revealed = 2, first_move = False,
             state = ACTIVE,
             grid = [[\<lparr>type = EMPTY, is_flagged = False, is_revealed = True\<rparr>,
                      \<lparr>type = EMPTY, is_flagged = False, is_revealed = True\<rparr>]]\<rparr>)"
    by (simp add: run_defs dir4_def dir8_def upt_conv_Cons)
  have s4: "reveal_step (new_Game 2 2 (\<lambda>k. k = 3) fm0) 0 0 =
       Inr (Success,
            \<lparr>count_bombs = 1, count_flagged = 0, count_revealed = 1, first_move = False,
             state = ACTIVE,
             grid = [[\<lparr>type = EMPTY, is_flagged = False, is_revealed = True\<rparr>,
                      \<lparr>type = EMPTY, is_flagged = False, is_revealed = False\<rparr>],
                     [\<lparr>type = EMPTY, is_flagged = False, is_revealed = False\<rparr>,
                      \<lparr>type = BOMB, is_flagged = False, is_revealed = False\<rparr>]]\<rparr>)"
    by (simp add: run_defs dir4_def dir8_def upt_conv_Cons)
  show ?thesis
    using general enters halts s1 s2 s3 s4 by - (intro conjI, assumption+)
qed

theorem expand_recursion_rule_witness:
  "rect (grid (new_Game 1 3 (\<lambda>k. k = 1) False))
   \<and> \<not> outside (grid (new_Game 1 3 (\<lambda>k. k = 1) False)) 0 0
   \<and> type (cell_at (grid (new_Game 1 3 (\<lambda>k. k = 1) False)) 0 0) \<noteq> BOMB
   \<and> \<not> is_revealed (cell_at (grid (new_Game 1 3 (\<lambda>k. k = 1) False)) 0 0)
   \<and> \<not> is_flagged (cell_at (grid (new_Game 1 3 (\<lambda>k. k = 1) False)) 0 0)
   \<and> count_flagged_neighbors (grid (new_Game 1 3 (\<lambda>k. k = 1) False)) 0 0 = 0
   \<and> count_bomb_neighbors (grid (new_Game 1 3 (\<lambda>k. k = 1) False)) 0 0 = 1
   \<and> expand (new_Game 1 3 (\<lambda>k. k = 1) False) 0 0
       = Some (marked (new_Game 1 3 (\<lambda>k. k = 1) False) 0 0)
   \<and> count_revealed (marked (new_Game 1 3 (\<lambda>k. k = 1) False) 0 0) = 1
   \<and> is_revealed (cell_at (grid (marked (new_Game 1 3 (\<lambda>k. k = 1) False) 0 0)) 0 0)
   \<and> cell_at (grid (marked (new_Game 1 3 (\<lambda>k. k = 1) False) 0 0)) 0 2
       = cell_at (grid (new_Game 1 3 (\<lambda>k. k = 1) False)) 0 2
   \<and> rect (grid (new_Game 1 2 (\<lambda>k. False) False))
   \<and> \<not> outside (grid (new_Game 1 2 (\<lambda>k. False) False)) 0 0
   \<and> type (cell_at (grid (new_Game 1 2 (\<lambda>k. False) False)) 0 0) \<noteq> BOMB
   \<and> \<not> is_revealed (cell_at (grid (new_Game 1 2 (\<lambda>k. False) False)) 0 0)
   \<and> \<not> is_flagged (cell_at (grid (new_Game 1 2 (\<lambda>k. False) False)) 0 0)
   \<and> count_flagged_neighbors (grid (new_Game 1 2 (\<lambda>k. False) False)) 0 0 = 0
   \<and> count_bomb_neighbors (grid (new_Game 1 2 (\<lambda>k. False) False)) 0 0 = 0
   \<and> expand (new_Game 1 2 (\<lambda>k. False) False) 0 0
       = for_dirs expand dir4 0 0 (marked (new_Game 1 2 (\<lambda>k. False) False) 0 0)
   \<and> \<not> outside (grid (new_Game 1 2 (\<lambda>k. False) False)) 0 1
   \<and> type (cell_at (grid (new_Game 1 2 (\<lambda>k. False) False)) 0 1) \<noteq> BOMB
   \<and> \<not> is_flagged (cell_at (grid (new_Game 1 2 (\<lambda>k. False) False)) 0 1)
   \<and> \<not> is_revealed (cell_at (grid (new_Game 1 2 (\<lambda>k. False) False)) 0 1)
   \<and> (\<exists>game'. expand (new_Game 1 2 (\<lambda>k. False) False) 0 0 = Some game'
          \<and> is_revealed (cell_at (grid game') 0 0)
          \<and> is_revealed (cell_at (grid game') 0 1))"
proof -
  let ?H = "new_Game 1 3 (\<lambda>k. k = 1) False"
  let ?G = "new_Game 1 2 (\<lambda>k. False) False"
  have h: "rect (grid ?H)" "\<not> outside (grid ?H) 0 0" "type (cell_at (grid ?H) 0 0) \<noteq> BOMB"
    "\<not> is_revealed (cell_at (grid ?H) 0 0)" "\<not> is_flagged (cell_at (grid ?H) 0 0)"
    "count_flagged_neighbors (grid ?H) 0 0 = 0" "count_bomb_neighbors (grid ?H) 0 0 = 1"
    by (simp_all add: rect_def eval_defs)
  have h2: "\<not> outside (grid ?H) 0 2" "count_revealed ?H = 0"
    by (simp_all add: eval_defs)
  have g: "rect (grid ?G)" "\<not> outside (grid ?G) 0 0" "type (cell_at (grid ?G) 0 0) \<noteq> BOMB"
    "\<not> is_revealed (cell_at (grid ?G) 0 0)" "\<not> is_flagged (cell_at (grid ?G) 0 0)"
    "count_flagged_neighbors (grid ?G) 0 0 = 0" "count_bomb_neighbors (grid ?G) 0 0 = 0"
    by (simp_all add: rect_def eval_defs)
  have g2: "\<not> outside (grid ?G) 0 1" "type (cell_at (grid ?G) 0 1) \<noteq> BOMB"
    "\<not> is_flagged (cell_at (grid ?G) 0 1)" "\<not> is_revealed (cell_at (grid ?G) 0 1)"
    by (simp_all add: eval_defs)
  note th = expand_recursion_rule [of ?H 0 0]
  note tg = expand_recursion_rule [of ?G 0 0]
  from th h have a1: "expand ?H 0 0 = Some (marked ?H 0 0)" by simp
  from th h have a3: "count_revealed (marked ?H 0 0) = count_revealed ?H + 1"
    "is_revealed (cell_at (grid (marked ?H 0 0)) 0 0)"
    by simp_all
  from th h have "\<forall>a b. \<not> outside (grid ?H) a b \<and> (a \<noteq> 0 \<or> b \<noteq> 0)
               \<longrightarrow> cell_at (grid (marked ?H 0 0)) a b = cell_at (grid ?H) a b"
    by simp
  with h2 have a5: "cell_at (grid (marked ?H 0 0)) 0 2 = cell_at (grid ?H) 0 2" by simp
  from tg g have a2: "expand ?G 0 0 = for_dirs expand dir4 0 0 (marked ?G 0 0)" by simp
  have pre: "rect (grid ?G) \<and> \<not> outside (grid ?G) 0 0 \<and> type (cell_at (grid ?G) 0 0) \<noteq> BOMB
      \<and> \<not> is_revealed (cell_at (grid ?G) 0 0) \<and> \<not> is_flagged (cell_at (grid ?G) 0 0)
      \<and> count_flagged_neighbors (grid ?G) 0 0 = count_bomb_neighbors (grid ?G) 0 0"
    using g by simp
  from tg [THEN conjunct2, THEN conjunct1, THEN mp, OF pre]
  obtain game' where e: "expand ?G 0 0 = Some game'"
    and h0: "is_revealed (cell_at (grid game') 0 0)"
    and h1: "\<not> outside (grid ?G) 0 (0 + 1) \<and> type (cell_at (grid ?G) 0 (0 + 1)) \<noteq> BOMB
                    \<and> \<not> is_flagged (cell_at (grid ?G) 0 (0 + 1))
                  \<longrightarrow> is_revealed (cell_at (grid game') 0 (0 + 1))"
    by blast
  from h1 g2 have "is_revealed (cell_at (grid game') 0 1)" by simp
  with e h0 have a4: "\<exists>game'. expand ?G 0 0 = Some game'
          \<and> is_revealed (cell_at (grid game') 0 0)
          \<and> is_revealed (cell_at (grid game') 0 1)" by blast
  from a3 h2 have a3': "count_revealed (marked ?H 0 0) = 1" by simp
  show ?thesis
    using h g g2 a1 a2 a3' a3(2) a5 a4 by - (intro conjI, assumption+)
qed

text \<open>
  Claim C8. On a rectangular grid, \<open>expand\<close> returns from every starting coordinate:
  a recursion depth of rows times columns plus one is enough (every nested call but the
  last marks a cell that was hidden), and any larger depth gives the same game. The
  counter advances by the number of cells that went from hidden to revealed, which is at
  most rows times columns. So \<open>try_reveal\<close> returns as well, and so does a round of the
  \<open>reveal\<close> command unless it is the first move on coordinates outside the grid (the
  write of claim C4).
\<close>

theorem expand_terminates:
  assumes r: "rect (grid game)"
  shows "\<exists>game'.
           expand_fuel (Suc (length (grid game) * length (grid game ! 0))) game i j = Some game'
           \<and> (\<forall>n. length (grid game) * length (grid game ! 0) < n
                  \<longrightarrow> expand_fuel n game i j = Some game')
           \<and> count_cells is_revealed (grid game) \<le> count_cells is_revealed (grid game')
           \<and> count_cells is_revealed (grid game') \<le> length (grid game) * length (grid game ! 0)
           \<and> count_revealed game' - count_revealed game
               = of_nat (count_cells is_revealed (grid game') - count_cells is_revealed (grid game))
           \<and> (\<exists>res game''. try_reveal game (i, j) = Some (res, game''))
           \<and> (\<not> (first_move game \<and> outside (grid game) i j)
                \<longrightarrow> (\<exists>res game''. reveal_step game i j = Inr (res, game'')))"
proof -
  let ?N = "length (grid game) * length (grid game ! 0)"
  from expand_returns [OF r, of i j] obtain game' where
    e: "expand game i j = Some game'" and g: "grows game game'" by blast
  have h: "hidden (grid game) \<le> ?N" using r by (rule hidden_le)
  have all: "\<forall>n. ?N < n \<longrightarrow> expand_fuel n game i j = Some game'"
  proof (intro allI impI)
    fix n assume "?N < n"
    with h have "hidden (grid game) < n" by simp
    from expand_fuel_eq_expand [OF r this, of i j] e show "expand_fuel n game i j = Some game'"
      by simp
  qed
  have r': "rect (grid game')" using g r by (rule grows_rect)
  have "map length (grid game') = map length (grid game)" using g by (simp add: grows_def)
  then have "length (concat (grid game')) = length (concat (grid game))"
    by (simp add: length_concat)
  then have le: "count_cells is_revealed (grid game') \<le> ?N"
    using count_cells_le [of is_revealed "grid game'"] length_concat_rect [OF r] by simp
  from g have mono: "count_cells is_revealed (grid game) \<le> count_cells is_revealed (grid game')"
    by (simp add: grows_def)
  from e have "expand_fuel (Suc ?N) game i j = Some game'" by (simp add: expand_def)
  with all le mono grows_diff [OF g] try_reveal_returns [OF r, of i j]
    reveal_step_returns [OF r, of i j]
  show ?thesis by blast
qed

theorem expand_terminates_witness:
  "rect (grid (new_Game 2 2 (\<lambda>k. False) False))
   \<and> \<not> first_move (new_Game 2 2 (\<lambda>k. False) False)
   \<and> (\<exists>game'. expand_fuel 5 (new_Game 2 2 (\<lambda>k. False) False) 0 0 = Some game'
         \<and> expand_fuel 7 (new_Game 2 2 (\<lambda>k. False) False) 0 0 = Some game')
   \<and> (\<exists>res game''. try_reveal (new_Game 2 2 (\<lambda>k. False) False) (0, 0) = Some (res, game''))
   \<and> (\<exists>res game''. reveal_step (new_Game 2 2 (\<lambda>k. False) False) 0 0 = Inr (res, game''))"
proof -
  have h: "rect (grid (new_Game 2 2 (\<lambda>k. False) False))"
    by (simp add: rect_def new_Game_def fill_grid_def upt_conv_Cons)
  have f: "\<not> first_move (new_Game 2 2 (\<lambda>k. False) False)"
    by (simp add: new_Game_def fill_grid_def)
  have l: "length (grid (new_Game 2 2 (\<lambda>k. False) False))
             * length (grid (new_Game 2 2 (\<lambda>k. False) False) ! 0) = 4"
    by (simp add: new_Game_def fill_grid_def upt_conv_Cons)
  from expand_terminates [OF h, of 0 0] f obtain game' where
    a: "expand_fuel (Suc 4) (new_Game 2 2 (\<lambda>k. False) False) 0 0 = Some game'"
    and b: "\<forall>n. 4 < n \<longrightarrow> expand_fuel n (new_Game 2 2 (\<lambda>k. False) False) 0 0 = Some game'"
    and c: "\<exists>res game''. try_reveal (new_Game 2 2 (\<lambda>k. False) False) (0, 0) = Some (res, game'')"
    and d: "\<exists>res game''. reveal_step (new_Game 2 2 (\<lambda>k. False) False) 0 0 = Inr (res, game'')"
    unfolding l by blast
  from b have "expand_fuel 7 (new_Game 2 2 (\<lambda>k. False) False) 0 0 = Some game'" by simp
  moreover from a have "expand_fuel 5 (new_Game 2 2 (\<lambda>k. False) False) 0 0 = Some game'"
    by (simp only: eval_nat_numeral)
  ultimately show ?thesis using h f c d by blast
qed

text \<open>
  Claim C9. \<open>try_reveal\<close> on a flagged cell inside the grid returns \<open>NA\<close> (the rejected
  move) and leaves the whole game as it was, whatever the cell hides; \<open>try_set_flag\<close>,
  with either value, on a revealed cell inside the grid returns \<open>NA\<close> and leaves the
  whole game, \<open>count_flagged\<close> included, as it was.
\<close>

theorem illegal_moves_rejected:
  "(\<not> outside (grid game) i j \<and> is_flagged (cell_at (grid game) i j)
      \<longrightarrow> try_reveal game (i, j) = Some (NA, game))
   \<and> (\<not> outside (grid game) i j \<and> is_revealed (cell_at (grid game) i j)
      \<longrightarrow> try_set_flag game (i, j) v = (NA, game))"
  by simp

theorem illegal_moves_rejected_witness:
  "\<not> outside [[\<lparr>type = BOMB, is_flagged = True, is_revealed = False\<rparr>]] 0 0
   \<and> is_flagged (cell_at [[\<lparr>type = BOMB, is_flagged = True, is_revealed = False\<rparr>]] 0 0)
   \<and> try_reveal
        \<lparr>count_bombs = 1, count_flagged = 1, count_revealed = 0, first_move = False,
         state = ACTIVE, grid = [[\<lparr>type = BOMB, is_flagged = True, is_revealed = False\<rparr>]]\<rparr> (0, 0)
      = Some (NA,
        \<lparr>count_bombs = 1, count_flagged = 1, count_revealed = 0, first_move = False,
         state = ACTIVE, grid = [[\<lparr>type = BOMB, is_flagged = True, is_revealed = False\<rparr>]]\<rparr>)
   \<and> \<not> outside [[\<lparr>type = EMPTY, is_flagged = False, is_revealed = True\<rparr>]] 0 0
   \<and> is_revealed (cell_at [[\<lparr>type = EMPTY, is_flagged = False, is_revealed = True\<rparr>]] 0 0)
   \<and> try_set_flag
        \<lparr>count_bombs = 0, count_flagged = 0, count_revealed = 1, first_move = False,
         state = ACTIVE, grid = [[\<lparr>type = EMPTY, is_flagged = False, is_revealed = True\<rparr>]]\<rparr> (0, 0) True
      = (NA,
        \<lparr>count_bombs = 0, count_flagged = 0, count_revealed = 1, first_move = False,
         state = ACTIVE, grid = [[\<lparr>type = EMPTY, is_flagged = False, is_revealed = True\<rparr>]]\<rparr>)"
  using
    illegal_moves_rejected [of
      "\<lparr>count_bombs = 1, count_flagged = 1, count_revealed = 0, first_move = False,
         state = ACTIVE, grid = [[\<lparr>type = BOMB, is_flagged = True, is_revealed = False\<rparr>]]\<rparr>" 0 0 True]
    illegal_moves_rejected [of
      "\<lparr>count_bombs = 0, count_flagged = 0, count_revealed = 1, first_move = False,
         state = ACTIVE, grid = [[\<lparr>type = EMPTY, is_flagged = False, is_revealed = True\<rparr>]]\<rparr>" 0 0 True]
  by (simp add: outside_def cell_at_def)

text \<open>
  Claim C10. On a cell inside the grid that is not revealed, \<open>try_set_flag\<close> returns
  \<open>Success\<close>, sets the cell's flag to the value asked for, and adds 1 to
  \<open>count_flagged\<close> for \<open>true\<close> and subtracts 1 for \<open>false\<close>, in \<open>uint32_t\<close>
  (so 0 becomes \<open>2^32 - 1\<close>). Nothing is assumed about the flag the cell had.
\<close>

theorem set_flag_unrevealed:
  assumes "rect (grid game)" "\<not> outside (grid game) i j"
    "\<not> is_revealed (cell_at (grid game) i j)"
  shows "\<exists>game'. try_set_flag game (i, j) v = (Success, game')
           \<and> is_flagged (cell_at (grid game') i j) = v
           \<and> count_flagged game' = (if v then count_flagged game + 1 else count_flagged game - 1)
           \<and> unat (count_flagged game')
               = (if v then (unat (count_flagged game) + 1) mod 2 ^ 32
                  else if count_flagged game = 0 then 2 ^ 32 - 1
                  else unat (count_flagged game) - 1)"
proof -
  have "unat (count_flagged game + 1) = (unat (count_flagged game) + 1) mod 2 ^ 32"
    by (simp add: unat_word_ariths)
  moreover have "count_flagged game \<noteq> 0 \<Longrightarrow>
      unat (count_flagged game - 1) = unat (count_flagged game) - 1"
    by (simp add: unat_minus_one)
  moreover have "unat (- 1 :: 32 word) = 4294967295"
    by (simp add: unsigned_minus_1_eq_mask mask_eq_exp_minus_1)
  ultimately show ?thesis
    using assms by (simp add: cell_at_upd_cell)
qed

theorem set_flag_unrevealed_witness:
  "rect (grid (new_Game 1 1 (\<lambda>k. False) False))
   \<and> \<not> outside (grid (new_Game 1 1 (\<lambda>k. False) False)) 0 0
   \<and> \<not> is_revealed (cell_at (grid (new_Game 1 1 (\<lambda>k. False) False)) 0 0)
   \<and> (\<exists>game'. try_set_flag (new_Game 1 1 (\<lambda>k. False) False) (0, 0) False = (Success, game')
           \<and> is_flagged (cell_at (grid game') 0 0) = False
           \<and> count_flagged game' = 4294967295)"
proof -
  have h: "rect (grid (new_Game 1 1 (\<lambda>k. False) False))"
    "\<not> outside (grid (new_Game 1 1 (\<lambda>k. False) False)) 0 0"
    "\<not> is_revealed (cell_at (grid (new_Game 1 1 (\<lambda>k. False) False)) 0 0)"
    by (simp_all add: rect_def new_Game_def fill_grid_def new_Cell_def outside_def cell_at_def)
  have c: "count_flagged (new_Game 1 1 (\<lambda>k. False) False) = 0"
    by (simp add: new_Game_def fill_grid_def)
  from set_flag_unrevealed [OF h, of False] obtain game' where
    "try_set_flag (new_Game 1 1 (\<lambda>k. False) False) (0, 0) False = (Success, game')"
    "is_flagged (cell_at (grid game') 0 0) = False"
    "count_flagged game' = count_flagged (new_Game 1 1 (\<lambda>k. False) False) - 1"
    by auto
  with h c show ?thesis by simp
qed

end
